theory Spec2Isabelle
  imports Complex_Main "HOL-Library.Sublist"
begin

section \<open>Errors\<close>

text \<open>
  Every failure of the program is a JavaScript exception.  The code itself only ever
  throws \<^verbatim>\<open>new Error(message)\<close>; the one other exception that can arise is the
  \<^verbatim>\<open>TypeError\<close> of the runtime when a property of \<^verbatim>\<open>undefined\<close> is read.
  A function that may throw returns \<open>error + 'a\<close>, with \<open>Inl\<close> for the exception.
\<close>

datatype error = Error string | TypeError

section \<open>The rule engine (\<^verbatim>\<open>types.ts\<close>, \<^verbatim>\<open>ruleEngine.ts\<close>)\<close>

record RewriteRule =
  id_rule :: string
  name :: string
  nameLatex :: "string option"
  appliesTo :: "string \<Rightarrow> error + bool"
  transform :: "string \<Rightarrow> error + string"
  explanation :: string

record DerivationStep =
  latex :: string
  ruleId :: "string option"
  ruleName :: "string option"
  explanation :: "string option"

text \<open>\<^verbatim>\<open>try { body } catch { handler }\<close>\<close>

definition try_catch :: "error + 'a \<Rightarrow> (error \<Rightarrow> error + 'a) \<Rightarrow> error + 'a" where
  "try_catch body handler = (case body of Inl e \<Rightarrow> handler e | Inr v \<Rightarrow> Inr v)"

text \<open>
  \<^verbatim>\<open>Array.prototype.filter\<close> with a callback that may throw: the elements are visited
  from left to right and an exception of the callback ends the whole call.
\<close>

fun filter_js :: "('a \<Rightarrow> error + bool) \<Rightarrow> 'a list \<Rightarrow> error + 'a list" where
  "filter_js f [] = Inr []"
| "filter_js f (x # xs) =
     (case f x of
        Inl e \<Rightarrow> Inl e
      | Inr keep \<Rightarrow>
          (case filter_js f xs of
             Inl e \<Rightarrow> Inl e
           | Inr ys \<Rightarrow> Inr (if keep then x # ys else ys)))"

definition applicableRules :: "string \<Rightarrow> RewriteRule list \<Rightarrow> error + RewriteRule list" where
  "applicableRules ltx rules =
     filter_js (\<lambda>r. try_catch (appliesTo r ltx) (\<lambda>_. Inr False)) rules"

definition applyRule :: "DerivationStep \<Rightarrow> RewriteRule \<Rightarrow> error + DerivationStep" where
  "applyRule current rule =
     (case transform rule (latex current) of
        Inl e \<Rightarrow> Inl e
      | Inr nextLatex \<Rightarrow>
          Inr \<lparr> latex = nextLatex,
                ruleId = Some (id_rule rule),
                ruleName = Some (name rule),
                explanation = Some (RewriteRule.explanation rule) \<rparr>)"

section \<open>Numbers and arrays (\<^verbatim>\<open>utils/matrix.ts\<close>)\<close>

text \<open>
  A JavaScript \<^verbatim>\<open>number\<close> is an IEEE-754 double.  The model keeps the special values
  the kernel can meet (\<^verbatim>\<open>Infinity\<close>, \<^verbatim>\<open>-Infinity\<close>, \<^verbatim>\<open>NaN\<close>) with their IEEE-754
  arithmetic, and takes a finite double as the real number it denotes.  Rounding and
  overflow of finite results are not modelled, and the two zeros are identified (they
  are equal under \<^verbatim>\<open>===\<close>).
\<close>

datatype number = Num real | Infinity | NegInfinity | NaN

fun is_neg :: "number \<Rightarrow> bool" where
  "is_neg (Num x) = (x < 0)"
| "is_neg NegInfinity = True"
| "is_neg _ = False"

definition signed_inf :: "bool \<Rightarrow> number" where
  "signed_inf neg = (if neg then NegInfinity else Infinity)"

fun num_mul :: "number \<Rightarrow> number \<Rightarrow> number" where
  "num_mul NaN b = NaN"
| "num_mul a NaN = NaN"
| "num_mul (Num x) (Num y) = Num (x * y)"
| "num_mul a b =
     (if a = Num 0 \<or> b = Num 0 then NaN else signed_inf (is_neg a \<noteq> is_neg b))"

fun num_sub :: "number \<Rightarrow> number \<Rightarrow> number" where
  "num_sub NaN b = NaN"
| "num_sub a NaN = NaN"
| "num_sub (Num x) (Num y) = Num (x - y)"
| "num_sub (Num x) Infinity = NegInfinity"
| "num_sub (Num x) NegInfinity = Infinity"
| "num_sub Infinity Infinity = NaN"
| "num_sub NegInfinity NegInfinity = NaN"
| "num_sub Infinity b = Infinity"
| "num_sub NegInfinity b = NegInfinity"

fun num_div :: "number \<Rightarrow> number \<Rightarrow> number" where
  "num_div NaN b = NaN"
| "num_div a NaN = NaN"
| "num_div (Num x) (Num y) =
     (if y = 0 then (if x = 0 then NaN else signed_inf (x < 0)) else Num (x / y))"
| "num_div (Num x) b = Num 0"
| "num_div a (Num y) = signed_inf (is_neg a \<noteq> (y < 0))"
| "num_div a b = NaN"

text \<open>\<^verbatim>\<open>Math.abs\<close>, and the comparison \<^verbatim>\<open><\<close> (false whenever an operand is NaN).\<close>

fun num_abs :: "number \<Rightarrow> number" where
  "num_abs (Num x) = Num \<bar>x\<bar>"
| "num_abs Infinity = Infinity"
| "num_abs NegInfinity = Infinity"
| "num_abs NaN = NaN"

fun num_lt :: "number \<Rightarrow> number \<Rightarrow> bool" where
  "num_lt NaN b = False"
| "num_lt a NaN = False"
| "num_lt (Num x) (Num y) = (x < y)"
| "num_lt a Infinity = (a \<noteq> Infinity)"
| "num_lt NegInfinity b = (b \<noteq> NegInfinity)"
| "num_lt a b = False"

text \<open>The tolerance \<^verbatim>\<open>1e-12\<close> of the solver.\<close>

definition tolerance :: number where
  "tolerance = Num (1 / 10 ^ 12)"

type_synonym Vec = "number list"
type_synonym Mat = "number list list"

text \<open>
  Reading a row or vector at an index: JavaScript yields \<^verbatim>\<open>undefined\<close> beyond the end
  of an array, and every use the kernel makes of such a value is arithmetic
  (\<^verbatim>\<open>Math.abs\<close>, \<^verbatim>\<open>-\<close>, \<^verbatim>\<open>*\<close>, \<^verbatim>\<open>/\<close>), which turns \<^verbatim>\<open>undefined\<close> into NaN.
  Writing beyond the end extends the array; the holes it leaves read as \<^verbatim>\<open>undefined\<close>.
\<close>

definition read_at :: "number list \<Rightarrow> nat \<Rightarrow> number" where
  "read_at xs i = (if i < length xs then xs ! i else NaN)"

definition write_at :: "number list \<Rightarrow> nat \<Rightarrow> number \<Rightarrow> number list" where
  "write_at xs i v =
     (if i < length xs then xs[i := v] else xs @ replicate (i - length xs) NaN @ [v])"

definition identity :: "nat \<Rightarrow> Mat" where
  "identity n = map (\<lambda>i. map (\<lambda>j. if i = j then Num 1 else Num 0) [0..<n]) [0..<n]"

definition matScale :: "Mat \<Rightarrow> number \<Rightarrow> Mat" where
  "matScale A c = map (\<lambda>row. map (\<lambda>v. num_mul c v) row) A"

text \<open>
  \<^verbatim>\<open>matSub\<close>.  The guard reads \<^verbatim>\<open>A[0].length\<close> only when the row counts agree; with
  no rows at all \<^verbatim>\<open>A[0]\<close> is \<^verbatim>\<open>undefined\<close> and reading its length is a TypeError.
\<close>

definition matSub :: "Mat \<Rightarrow> Mat \<Rightarrow> error + Mat" where
  "matSub A B =
     (if length A \<noteq> length B then Inl (Error ''Matrix shape mismatch'')
      else if A = [] then Inl TypeError
      else if length (A ! 0) \<noteq> length (B ! 0) then Inl (Error ''Matrix shape mismatch'')
      else Inr (map (\<lambda>i. map (\<lambda>j. num_sub (A ! i ! j) (read_at (B ! i) j)) [0..<length (A ! i)])
                    [0..<length A]))"

definition cloneMat :: "Mat \<Rightarrow> Mat" where
  "cloneMat A = map (\<lambda>row. row) A"

subsection \<open>Gaussian elimination with partial pivoting\<close>

text \<open>
  The pivot search
  \<^verbatim>\<open>for (let r = col + 1; r < n; r++) if (Math.abs(A[r][col]) > Math.abs(A[pivot][col])) pivot = r\<close>.
\<close>

function find_pivot :: "Mat \<Rightarrow> nat \<Rightarrow> nat \<Rightarrow> nat \<Rightarrow> nat \<Rightarrow> nat" where
  "find_pivot A col n r pivot =
     (if r < n
      then find_pivot A col n (r + 1)
             (if num_lt (num_abs (read_at (A ! pivot) col)) (num_abs (read_at (A ! r) col))
              then r else pivot)
      else pivot)"
  by pat_completeness auto
termination
  by (relation "measure (\<lambda>(A, col, n, r, pivot). n - r)") auto

declare find_pivot.simps [simp del]

text \<open>
  The innermost loop \<^verbatim>\<open>for (let c = col; c < n; c++) A[r][c] -= factor * A[col][c]\<close>,
  on row \<open>r\<close> (\<open>row\<close>) and the pivot row (\<open>prow\<close>).
\<close>

function elim_row :: "number \<Rightarrow> number list \<Rightarrow> nat \<Rightarrow> nat \<Rightarrow> number list \<Rightarrow> number list" where
  "elim_row factor prow n c row =
     (if c < n
      then elim_row factor prow n (c + 1)
             (write_at row c (num_sub (read_at row c) (num_mul factor (read_at prow c))))
      else row)"
  by pat_completeness auto
termination
  by (relation "measure (\<lambda>(factor, prow, n, c, row). n - c)") auto

declare elim_row.simps [simp del]

text \<open>The loop over the rows below the pivot.\<close>

function eliminate :: "nat \<Rightarrow> nat \<Rightarrow> nat \<Rightarrow> Mat \<times> Vec \<Rightarrow> Mat \<times> Vec" where
  "eliminate n col r (A, b) =
     (if r < n
      then (let factor = num_div (read_at (A ! r) col) (read_at (A ! col) col);
                A' = A[r := elim_row factor (A ! col) n col (A ! r)];
                b' = b[r := num_sub (b ! r) (num_mul factor (b ! col))]
            in eliminate n col (r + 1) (A', b'))
      else (A, b))"
  by pat_completeness auto
termination
  by (relation "measure (\<lambda>(n, col, r, Ab). n - r)") auto

declare eliminate.simps [simp del]

text \<open>One pivot column: search, tolerance test, swap, elimination.\<close>

definition pivot_step :: "nat \<Rightarrow> nat \<Rightarrow> Mat \<times> Vec \<Rightarrow> error + Mat \<times> Vec" where
  "pivot_step n col Ab =
     (case Ab of (A, b) \<Rightarrow>
        (let pivot = find_pivot A col n (col + 1) col in
         if num_lt (num_abs (read_at (A ! pivot) col)) tolerance
         then Inl (Error ''Matrix is singular or ill-conditioned'')
         else (let A' = A[col := A ! pivot, pivot := A ! col];
                   b' = b[col := b ! pivot, pivot := b ! col]
               in Inr (eliminate n col (col + 1) (A', b')))))"

text \<open>The loop over the pivot columns \<open>col, col + 1, \<dots>, n - 1\<close>.\<close>

function forward :: "nat \<Rightarrow> nat \<Rightarrow> Mat \<times> Vec \<Rightarrow> error + Mat \<times> Vec" where
  "forward n col Ab =
     (if col < n
      then (case pivot_step n col Ab of
              Inl e \<Rightarrow> Inl e
            | Inr Ab' \<Rightarrow> forward n (col + 1) Ab')
      else Inr Ab)"
  by pat_completeness auto
termination
  by (relation "measure (\<lambda>(n, col, Ab). n - col)") auto

declare forward.simps [simp del]

text \<open>Back-substitution: \<^verbatim>\<open>for (let c = r + 1; c < n; c++) sum -= A[r][c] * x[c]\<close>
  (the accumulator \<open>acc\<close> is the source's \<^verbatim>\<open>sum\<close>).\<close>

function row_sum :: "number list \<Rightarrow> Vec \<Rightarrow> nat \<Rightarrow> nat \<Rightarrow> number \<Rightarrow> number" where
  "row_sum row x n c acc =
     (if c < n
      then row_sum row x n (c + 1) (num_sub acc (num_mul (read_at row c) (read_at x c)))
      else acc)"
  by pat_completeness auto
termination
  by (relation "measure (\<lambda>(row, x, n, c, acc). n - c)") auto

declare row_sum.simps [simp del]

text \<open>
  \<^verbatim>\<open>for (let r = n - 1; r >= 0; r--)\<close>: the counter of the model is \<open>r + 1\<close>.
\<close>

fun back_substitute :: "Mat \<Rightarrow> Vec \<Rightarrow> nat \<Rightarrow> nat \<Rightarrow> Vec \<Rightarrow> Vec" where
  "back_substitute A b n 0 x = x"
| "back_substitute A b n (Suc r) x =
     (let acc = row_sum (A ! r) x n (r + 1) (b ! r)
      in back_substitute A b n r (x[r := num_div acc (read_at (A ! r) r)]))"

definition solveLinearSystem :: "Mat \<Rightarrow> Vec \<Rightarrow> error + Vec" where
  "solveLinearSystem Ain bIn =
     (let A = cloneMat Ain; b = bIn; n = length A in
      if length b \<noteq> n then Inl (Error ''b length mismatch'')
      else (case forward n 0 (A, b) of
              Inl e \<Rightarrow> Inl e
            | Inr (A', b') \<Rightarrow> Inr (back_substitute A' b' n n (replicate n (Num 0)))))"

subsection \<open>Auxiliary notions for stating the solver's properties\<close>


definition chosen_pivot :: "Mat \<Rightarrow> nat \<Rightarrow> nat \<Rightarrow> nat" where
  "chosen_pivot A col n = find_pivot A col n (col + 1) col"

text \<open>A matrix with \<open>m\<close> rows, each of \<open>n\<close> entries.\<close>

definition rectangular :: "Mat \<Rightarrow> nat \<Rightarrow> nat \<Rightarrow> bool" where
  "rectangular A m n = (length A = m \<and> list_all (\<lambda>row. length row = n) A)"

text \<open>Row \<open>i\<close> of the identity matrix, as real numbers.\<close>

definition unit_row :: "nat \<Rightarrow> nat \<Rightarrow> real list" where
  "unit_row n i = map (\<lambda>j. if i = j then 1 else 0) [0..<n]"

section \<open>The solver on a heap of arrays\<close>

text \<open>
  The definitions above take matrices and vectors as values.  What the solver does to
  the arrays of its caller needs the arrays as objects: an array of numbers
  (\<^verbatim>\<open>number[]\<close>) and an array of references to such (\<^verbatim>\<open>number[][]\<close>) live at addresses of a
  heap, the two kinds apart as their types are, and \<open>fresh\<close> is the next address to be
  allocated.  Every statement of \<^verbatim>\<open>solveLinearSystem\<close> is then a read or a write at an
  address.
\<close>

type_synonym addr = nat

record heap =
  rows :: "addr \<Rightarrow> addr list"
  nums :: "addr \<Rightarrow> number list"
  fresh :: addr

definition alloc_nums :: "number list \<Rightarrow> heap \<Rightarrow> addr \<times> heap" where
  "alloc_nums xs h = (fresh h, h \<lparr> nums := (nums h)(fresh h := xs), fresh := fresh h + 1 \<rparr>)"

definition alloc_rows :: "addr list \<Rightarrow> heap \<Rightarrow> addr \<times> heap" where
  "alloc_rows rs h = (fresh h, h \<lparr> rows := (rows h)(fresh h := rs), fresh := fresh h + 1 \<rparr>)"

text \<open>\<^verbatim>\<open>A[r][c]\<close>, \<^verbatim>\<open>A[r][c] = v\<close>, \<^verbatim>\<open>b[r]\<close> and \<^verbatim>\<open>b[r] = v\<close>.\<close>

definition get_entry :: "heap \<Rightarrow> addr \<Rightarrow> nat \<Rightarrow> nat \<Rightarrow> number" where
  "get_entry h A r c = read_at (nums h (rows h A ! r)) c"

definition set_entry :: "heap \<Rightarrow> addr \<Rightarrow> nat \<Rightarrow> nat \<Rightarrow> number \<Rightarrow> heap" where
  "set_entry h A r c v =
     h \<lparr> nums := (nums h)(rows h A ! r := write_at (nums h (rows h A ! r)) c v) \<rparr>"

definition get_elem :: "heap \<Rightarrow> addr \<Rightarrow> nat \<Rightarrow> number" where
  "get_elem h b r = nums h b ! r"

definition set_elem :: "heap \<Rightarrow> addr \<Rightarrow> nat \<Rightarrow> number \<Rightarrow> heap" where
  "set_elem h b r v = h \<lparr> nums := (nums h)(b := (nums h b)[r := v]) \<rparr>"

text \<open>\<^verbatim>\<open>A.map(row => row.slice())\<close>: a fresh copy of every row, and a fresh array of them.\<close>

fun clone_rows :: "addr list \<Rightarrow> heap \<Rightarrow> addr list \<times> heap" where
  "clone_rows [] h = ([], h)"
| "clone_rows (r # rs) h =
     (case alloc_nums (nums h r) h of (r', h1) \<Rightarrow>
        (case clone_rows rs h1 of (rs', h2) \<Rightarrow> (r' # rs', h2)))"

definition cloneMat_heap :: "addr \<Rightarrow> heap \<Rightarrow> addr \<times> heap" where
  "cloneMat_heap A h = (case clone_rows (rows h A) h of (rs', h1) \<Rightarrow> alloc_rows rs' h1)"

function find_pivot_heap :: "heap \<Rightarrow> addr \<Rightarrow> nat \<Rightarrow> nat \<Rightarrow> nat \<Rightarrow> nat \<Rightarrow> nat" where
  "find_pivot_heap h A col n r pivot =
     (if r < n
      then find_pivot_heap h A col n (r + 1)
             (if num_lt (num_abs (get_entry h A pivot col)) (num_abs (get_entry h A r col))
              then r else pivot)
      else pivot)"
  by pat_completeness auto
termination
  by (relation "measure (\<lambda>(h, A, col, n, r, pivot). n - r)") auto

declare find_pivot_heap.simps [simp del]

function elim_row_heap :: "number \<Rightarrow> addr \<Rightarrow> nat \<Rightarrow> nat \<Rightarrow> nat \<Rightarrow> nat \<Rightarrow> heap \<Rightarrow> heap" where
  "elim_row_heap factor A r col n c h =
     (if c < n
      then elim_row_heap factor A r col n (c + 1)
             (set_entry h A r c
                (num_sub (get_entry h A r c) (num_mul factor (get_entry h A col c))))
      else h)"
  by pat_completeness auto
termination
  by (relation "measure (\<lambda>(factor, A, r, col, n, c, h). n - c)") auto

declare elim_row_heap.simps [simp del]

function eliminate_heap :: "addr \<Rightarrow> addr \<Rightarrow> nat \<Rightarrow> nat \<Rightarrow> nat \<Rightarrow> heap \<Rightarrow> heap" where
  "eliminate_heap A b n col r h =
     (if r < n
      then (let factor = num_div (get_entry h A r col) (get_entry h A col col);
                h1 = elim_row_heap factor A r col n col h;
                h2 = set_elem h1 b r
                       (num_sub (get_elem h1 b r) (num_mul factor (get_elem h1 b col)))
            in eliminate_heap A b n col (r + 1) h2)
      else h)"
  by pat_completeness auto
termination
  by (relation "measure (\<lambda>(A, b, n, col, r, h). n - r)") auto

declare eliminate_heap.simps [simp del]

text \<open>
  The two swaps \<^verbatim>\<open>[A[col], A[pivot]] = [A[pivot], A[col]]\<close> and
  \<^verbatim>\<open>[b[col], b[pivot]] = [b[pivot], b[col]]\<close>: the first exchanges two references in the
  array \<open>A\<close>, the second two numbers in the array \<open>b\<close>.
\<close>

definition swap_rows :: "heap \<Rightarrow> addr \<Rightarrow> nat \<Rightarrow> nat \<Rightarrow> heap" where
  "swap_rows h A i j =
     h \<lparr> rows := (rows h)(A := (rows h A)[i := rows h A ! j, j := rows h A ! i]) \<rparr>"

definition swap_elems :: "heap \<Rightarrow> addr \<Rightarrow> nat \<Rightarrow> nat \<Rightarrow> heap" where
  "swap_elems h b i j =
     h \<lparr> nums := (nums h)(b := (nums h b)[i := nums h b ! j, j := nums h b ! i]) \<rparr>"

definition pivot_step_heap :: "addr \<Rightarrow> addr \<Rightarrow> nat \<Rightarrow> nat \<Rightarrow> heap \<Rightarrow> (error + unit) \<times> heap" where
  "pivot_step_heap A b n col h =
     (let pivot = find_pivot_heap h A col n (col + 1) col in
      if num_lt (num_abs (get_entry h A pivot col)) tolerance
      then (Inl (Error ''Matrix is singular or ill-conditioned''), h)
      else (Inr (), eliminate_heap A b n col (col + 1)
                      (swap_elems (swap_rows h A col pivot) b col pivot)))"

function forward_heap :: "addr \<Rightarrow> addr \<Rightarrow> nat \<Rightarrow> nat \<Rightarrow> heap \<Rightarrow> (error + unit) \<times> heap" where
  "forward_heap A b n col h =
     (if col < n
      then (case pivot_step_heap A b n col h of
              (Inl e, h') \<Rightarrow> (Inl e, h')
            | (Inr u, h') \<Rightarrow> forward_heap A b n (col + 1) h')
      else (Inr (), h))"
  by pat_completeness auto
termination
  by (relation "measure (\<lambda>(A, b, n, col, h). n - col)") auto

declare forward_heap.simps [simp del]

function row_sum_heap :: "heap \<Rightarrow> addr \<Rightarrow> addr \<Rightarrow> nat \<Rightarrow> nat \<Rightarrow> nat \<Rightarrow> number \<Rightarrow> number" where
  "row_sum_heap h A x r n c acc =
     (if c < n
      then row_sum_heap h A x r n (c + 1)
             (num_sub acc (num_mul (get_entry h A r c) (read_at (nums h x) c)))
      else acc)"
  by pat_completeness auto
termination
  by (relation "measure (\<lambda>(h, A, x, r, n, c, acc). n - c)") auto

declare row_sum_heap.simps [simp del]

fun back_substitute_heap :: "addr \<Rightarrow> addr \<Rightarrow> addr \<Rightarrow> nat \<Rightarrow> nat \<Rightarrow> heap \<Rightarrow> heap" where
  "back_substitute_heap A b x n 0 h = h"
| "back_substitute_heap A b x n (Suc r) h =
     (let acc = row_sum_heap h A x r n (r + 1) (get_elem h b r)
      in back_substitute_heap A b x n r
           (set_elem h x r (num_div acc (get_entry h A r r))))"

text \<open>
  \<^verbatim>\<open>solveLinearSystem(Ain, bIn)\<close> on the heap: the result is the exception or the address of
  the new array \<open>x\<close>, together with the heap the call leaves.
\<close>

definition solveLinearSystem_heap :: "addr \<Rightarrow> addr \<Rightarrow> heap \<Rightarrow> (error + addr) \<times> heap" where
  "solveLinearSystem_heap Ain bIn h =
     (case cloneMat_heap Ain h of (A, h1) \<Rightarrow>
      (case alloc_nums (nums h1 bIn) h1 of (b, h2) \<Rightarrow>
       (let n = length (rows h2 A) in
        if length (nums h2 b) \<noteq> n then (Inl (Error ''b length mismatch''), h2)
        else (case forward_heap A b n 0 h2 of
                (Inl e, h3) \<Rightarrow> (Inl e, h3)
              | (Inr u, h3) \<Rightarrow>
                  (case alloc_nums (replicate n (Num 0)) h3 of (x, h4) \<Rightarrow>
                     (Inr x, back_substitute_heap A b x n n h4))))))"

text \<open>
  Auxiliary notions for the solver's effect: the objects below an address are the same
  in two heaps (and nothing was deallocated); and the working arrays \<open>A\<close> (with all its
  rows) and \<open>b\<close> lie at or above an address.
\<close>

definition unchanged_below :: "addr \<Rightarrow> heap \<Rightarrow> heap \<Rightarrow> bool" where
  "unchanged_below k h h' =
     (fresh h \<le> fresh h' \<and> (\<forall>a<k. rows h' a = rows h a \<and> nums h' a = nums h a))"

definition working_above :: "addr \<Rightarrow> addr \<Rightarrow> addr \<Rightarrow> nat \<Rightarrow> heap \<Rightarrow> bool" where
  "working_above k A b n h =
     (k \<le> A \<and> k \<le> b \<and> length (rows h A) = n \<and> (\<forall>r\<in>set (rows h A). k \<le> r))"

text \<open>
  A heap with the matrix \<open>[[2,1],[1,3]]\<close> at address 0 (rows at 1 and 2), the vectors
  \<open>[3,5]\<close> and \<open>[1]\<close> at 3 and 4, and the matrix \<open>[[1,1],[1,1]]\<close> at 5 (rows at 6 and 7).
\<close>

definition example_heap :: heap where
  "example_heap =
     \<lparr> rows = (\<lambda>a. [])(0 := [1, 2], 5 := [6, 7]),
       nums = (\<lambda>a. [])(1 := [Num 2, Num 1], 2 := [Num 1, Num 3], 3 := [Num 3, Num 5],
                        4 := [Num 1], 6 := [Num 1, Num 1], 7 := [Num 1, Num 1]),
       fresh = 8 \<rparr>"

text \<open>The matrix that the array at \<open>A\<close> and its rows hold, as a value.\<close>

definition mat_of :: "heap \<Rightarrow> addr \<Rightarrow> Mat" where
  "mat_of h A = map (nums h) (rows h A)"

text \<open>
  The rows of the array at \<open>A\<close> are \<open>n\<close> different arrays, and the arrays at \<open>b\<close> and \<open>x\<close>
  are none of them and differ.
\<close>

definition separate :: "heap \<Rightarrow> addr \<Rightarrow> addr \<Rightarrow> addr \<Rightarrow> nat \<Rightarrow> bool" where
  "separate h A b x n =
     (length (rows h A) = n \<and> distinct (rows h A) \<and> b \<notin> set (rows h A)
      \<and> x \<notin> set (rows h A) \<and> x \<noteq> b)"

section \<open>Strings and regular expressions\<close>

text \<open>
  A JavaScript string is a sequence of UTF-16 code units; the model takes \<open>string\<close>, so
  the code units \<open>0x00\<close> to \<open>0xFF\<close>.  Every string and pattern literal of the program is
  ASCII.  The backslash cannot be written inside an Isabelle string literal and is named
  \<open>BS\<close>.
\<close>

abbreviation BS :: char where
  "BS \<equiv> CHR 0x5C"

text \<open>The apostrophe, for the places where a literal cannot hold it.\<close>

abbreviation APOS :: char where
  "APOS \<equiv> CHR 0x27"

text \<open>
  White space as \<^verbatim>\<open>\s\<close> and \<^verbatim>\<open>trim\<close> see it (tab, line feed, vertical tab, form feed,
  carriage return, space, no-break space), and the line terminators that \<^verbatim>\<open>.\<close> does not
  match.
\<close>

definition is_space :: "char \<Rightarrow> bool" where
  "is_space c = (c \<in> set [CHR 0x09, CHR 0x0A, CHR 0x0B, CHR 0x0C, CHR 0x0D, CHR 0x20, CHR 0xA0])"

definition is_line_terminator :: "char \<Rightarrow> bool" where
  "is_line_terminator c = (c = CHR 0x0A \<or> c = CHR 0x0D)"

subsection \<open>String methods\<close>

text \<open>\<^verbatim>\<open>s.startsWith(sub)\<close> on the rest of a string, used by the searches below.\<close>

fun starts_with :: "string \<Rightarrow> string \<Rightarrow> bool" where
  "starts_with s [] = True"
| "starts_with [] (c # sub) = False"
| "starts_with (d # s) (c # sub) = (d = c \<and> starts_with s sub)"

text \<open>
  \<^verbatim>\<open>s.indexOf(sub, start)\<close>: the least index \<open>k \<ge> start\<close> at which \<open>sub\<close> occurs, \<open>None\<close>
  for the result \<open>-1\<close>.  \<open>index_from k s sub\<close> searches the rest \<open>s\<close> of the string that
  starts at index \<open>k\<close>.
\<close>

fun index_from :: "nat \<Rightarrow> string \<Rightarrow> string \<Rightarrow> nat option" where
  "index_from k [] sub = (if sub = [] then Some k else None)"
| "index_from k (c # s) sub =
     (if starts_with (c # s) sub then Some k else index_from (Suc k) s sub)"

definition indexOf :: "string \<Rightarrow> string \<Rightarrow> nat \<Rightarrow> nat option" where
  "indexOf s sub start = (let p = min start (length s) in index_from p (drop p s) sub)"

definition includes_str :: "string \<Rightarrow> string \<Rightarrow> bool" where
  "includes_str s sub = (indexOf s sub 0 \<noteq> None)"

text \<open>\<^verbatim>\<open>s.lastIndexOf(sub)\<close>: the greatest index at which \<open>sub\<close> occurs.\<close>

fun last_index_from :: "nat \<Rightarrow> string \<Rightarrow> string \<Rightarrow> nat option" where
  "last_index_from k [] sub = (if sub = [] then Some k else None)"
| "last_index_from k (c # s) sub =
     (case last_index_from (Suc k) s sub of
        Some j \<Rightarrow> Some j
      | None \<Rightarrow> if starts_with (c # s) sub then Some k else None)"

definition lastIndexOf :: "string \<Rightarrow> string \<Rightarrow> nat option" where
  "lastIndexOf s sub = last_index_from 0 s sub"

text \<open>\<^verbatim>\<open>s.slice(a, b)\<close> for indices \<open>a, b \<ge> 0\<close>; empty when \<open>b \<le> a\<close>.\<close>

definition slice :: "string \<Rightarrow> nat \<Rightarrow> nat \<Rightarrow> string" where
  "slice s a b = take (b - a) (drop a s)"

definition trim :: "string \<Rightarrow> string" where
  "trim s = rev (dropWhile is_space (rev (dropWhile is_space s)))"

subsection \<open>Regular expressions\<close>

text \<open>
  The patterns of the program use literal characters, \<^verbatim>\<open>.\<close>, \<^verbatim>\<open>\s\<close>, character classes
  without ranges, sequencing, the greedy quantifiers \<^verbatim>\<open>*\<close>, \<^verbatim>\<open>+\<close>, \<^verbatim>\<open>?\<close>, the assertions
  \<^verbatim>\<open>^\<close> and \<^verbatim>\<open>$\<close> (no \<^verbatim>\<open>m\<close> flag anywhere) and capturing groups.
\<close>

datatype regex =
    EmptyPattern
  | Chr char
  | Dot
  | Space
  | Class "char list"
  | Seq regex regex
  | Star regex
  | Opt regex
  | Bol
  | Eol
  | Group regex

text \<open>\<^verbatim>\<open>r+\<close> is one \<open>r\<close> followed by \<^verbatim>\<open>r*\<close>.\<close>

definition Plus :: "regex \<Rightarrow> regex" where
  "Plus r = Seq r (Star r)"

text \<open>A sequence of terms, and a run of literal characters.\<close>

fun cat :: "regex list \<Rightarrow> regex" where
  "cat [] = EmptyPattern"
| "cat [r] = r"
| "cat (r # rs) = Seq r (cat rs)"

definition lit :: "string \<Rightarrow> regex" where
  "lit s = cat (map Chr s)"

text \<open>
  The backtracking matcher of ECMAScript, in the continuation-passing form of the
  language specification.  A state holds the index reached (\<open>endIndex\<close>), the input from
  there on (\<open>remaining\<close>) and the texts captured so far, in the order in which their groups
  closed.  \<open>matcher r c x\<close> matches \<open>r\<close> from the state \<open>x\<close> and hands every state it can
  reach to the continuation \<open>c\<close>, in priority order, until \<open>c\<close> succeeds.

  In the case of \<^verbatim>\<open>*\<close> and \<^verbatim>\<open>?\<close> an iteration that consumes nothing is rejected, as the
  specification's \<open>RepeatMatcher\<close> does; the test \<open>length (remaining y) < length (remaining x)\<close>
  says so (an iteration never makes the rest longer).
\<close>

record mstate =
  endIndex :: nat
  remaining :: string
  captures :: "string list"

definition advance_char :: "mstate \<Rightarrow> mstate" where
  "advance_char x = x \<lparr> endIndex := endIndex x + 1, remaining := tl (remaining x) \<rparr>"

definition char_matcher :: "(char \<Rightarrow> bool) \<Rightarrow> (mstate \<Rightarrow> 'a option) \<Rightarrow> mstate \<Rightarrow> 'a option" where
  "char_matcher P c x =
     (case remaining x of
        [] \<Rightarrow> None
      | ch # _ \<Rightarrow> if P ch then c (advance_char x) else None)"

function matcher :: "regex \<Rightarrow> (mstate \<Rightarrow> 'a option) \<Rightarrow> mstate \<Rightarrow> 'a option" where
  "matcher EmptyPattern c x = c x"
| "matcher (Chr ch) c x = char_matcher (\<lambda>d. d = ch) c x"
| "matcher Dot c x = char_matcher (\<lambda>d. \<not> is_line_terminator d) c x"
| "matcher Space c x = char_matcher is_space c x"
| "matcher (Class cs) c x = char_matcher (\<lambda>d. d \<in> set cs) c x"
| "matcher (Seq r1 r2) c x = matcher r1 (\<lambda>y. matcher r2 c y) x"
| "matcher (Star r) c x =
     (case matcher r (\<lambda>y. if length (remaining y) < length (remaining x)
                             then matcher (Star r) c y else None) x of
        Some res \<Rightarrow> Some res
      | None \<Rightarrow> c x)"
| "matcher (Opt r) c x =
     (case matcher r (\<lambda>y. if length (remaining y) < length (remaining x) then c y else None) x of
        Some res \<Rightarrow> Some res
      | None \<Rightarrow> c x)"
| "matcher Bol c x = (if endIndex x = 0 then c x else None)"
| "matcher Eol c x = (if remaining x = [] then c x else None)"
| "matcher (Group r) c x =
     matcher r (\<lambda>y. c (y \<lparr> captures :=
                   captures y @ [take (endIndex y - endIndex x) (remaining x)] \<rparr>)) x"
  by pat_completeness auto
termination
  by (relation "measures [\<lambda>(r, c, x). size r, \<lambda>(r, c, x). length (remaining x)]") auto

text \<open>
  \<open>exec_from r k s\<close> is the search of \<^verbatim>\<open>RegExp.prototype.exec\<close>: \<open>s\<close> is the input from
  index \<open>k\<close> on, and the match is tried at \<open>k\<close>, \<open>k + 1\<close>, \<dots> up to the end of the input.
  The result is the index where the match starts and the final state of the matcher.
\<close>

definition match_at :: "regex \<Rightarrow> nat \<Rightarrow> string \<Rightarrow> mstate option" where
  "match_at r k s = matcher r Some \<lparr> endIndex = k, remaining = s, captures = [] \<rparr>"

fun exec_from :: "regex \<Rightarrow> nat \<Rightarrow> string \<Rightarrow> (nat \<times> mstate) option" where
  "exec_from r k [] =
     (case match_at r k [] of Some y \<Rightarrow> Some (k, y) | None \<Rightarrow> None)"
| "exec_from r k (c # s) =
     (case match_at r k (c # s) of Some y \<Rightarrow> Some (k, y) | None \<Rightarrow> exec_from r (Suc k) s)"

text \<open>\<^verbatim>\<open>r.test(s)\<close> and \<^verbatim>\<open>s.match(r)\<close> for a pattern whose \<^verbatim>\<open>lastIndex\<close> is 0.\<close>

definition regex_test :: "regex \<Rightarrow> string \<Rightarrow> bool" where
  "regex_test r s = (exec_from r 0 s \<noteq> None)"

definition regex_match :: "regex \<Rightarrow> string \<Rightarrow> string list option" where
  "regex_match r s = map_option (\<lambda>(st, y). captures y) (exec_from r 0 s)"

text \<open>The matcher only moves forward, and the index and the rest move together.\<close>

lemma char_matcher_forward:
  "char_matcher P c x = Some res \<Longrightarrow>
     \<exists>y. c y = Some res \<and> endIndex x \<le> endIndex y
       \<and> endIndex y + length (remaining y) = endIndex x + length (remaining x)"
  by (cases "remaining x") (auto simp: char_matcher_def advance_char_def split: if_splits)

lemma matcher_forward:
  "matcher r c x = Some res \<Longrightarrow>
     \<exists>y. c y = Some res \<and> endIndex x \<le> endIndex y
       \<and> endIndex y + length (remaining y) = endIndex x + length (remaining x)"
proof (induction r c x arbitrary: res rule: matcher.induct)
  case (6 r1 r2 c x)
  from "6.IH"(2) [of res] "6.prems"
  obtain y where y: "matcher r2 c y = Some res" "endIndex x \<le> endIndex y"
    "endIndex y + length (remaining y) = endIndex x + length (remaining x)"
    by auto
  from "6.IH"(1) [OF y(1)] y(2,3) show ?case by fastforce
next
  case (7 r c x)
  show ?case
  proof (cases "matcher r (\<lambda>y. if length (remaining y) < length (remaining x)
                             then matcher (Star r) c y else None) x")
    case None
    with "7.prems" show ?thesis by auto
  next
    case (Some res')
    with "7.prems" have eq: "res' = res" by simp
    from "7.IH"(2) [of res] Some eq
    obtain y where y: "length (remaining y) < length (remaining x)" "matcher (Star r) c y = Some res"
      "endIndex x \<le> endIndex y"
      "endIndex y + length (remaining y) = endIndex x + length (remaining x)"
      by (auto split: if_splits)
    from "7.IH"(1) [OF y(1,2)] y(3,4) show ?thesis by fastforce
  qed
next
  case (8 r c x)
  show ?case
  proof (cases "matcher r (\<lambda>y. if length (remaining y) < length (remaining x) then c y else None) x")
    case None
    with "8.prems" show ?thesis by auto
  next
    case (Some res')
    with "8.prems" have eq: "res' = res" by simp
    from "8.IH" [of res] Some eq show ?thesis by (auto split: if_splits)
  qed
next
  case (11 r c x)
  from "11.IH" [of res] "11.prems" show ?case by auto
qed (auto dest: char_matcher_forward split: if_splits)

lemma exec_from_forward:
  "exec_from r k s = Some (st, y) \<Longrightarrow>
     k \<le> st \<and> st \<le> endIndex y \<and> endIndex y + length (remaining y) = k + length s"
proof (induction s arbitrary: k)
  case Nil
  then show ?case
    by (auto simp: match_at_def split: option.splits dest!: matcher_forward)
next
  case (Cons c s)
  show ?case
  proof (cases "match_at r k (c # s)")
    case None
    with Cons.prems have "exec_from r (Suc k) s = Some (st, y)" by simp
    from Cons.IH [OF this] show ?thesis by simp
  next
    case (Some y')
    with Cons.prems have "st = k" "y' = y" by simp_all
    with Some show ?thesis
      by (auto simp: match_at_def dest!: matcher_forward)
  qed
qed

text \<open>
  \<^verbatim>\<open>s.replace(r, rep)\<close> for a pattern with the \<^verbatim>\<open>g\<close> flag and a replacement text without
  \<^verbatim>\<open>$\<close> (none of the program's has one): every match, from left to right, is replaced
  by \<open>rep\<close>.  \<open>s\<close> is the input from index \<open>k\<close> on.  After an empty match the search
  resumes one character further.
\<close>

function replace_all :: "regex \<Rightarrow> string \<Rightarrow> nat \<Rightarrow> string \<Rightarrow> string" where
  "replace_all r rep k s =
     (case exec_from r k s of
        None \<Rightarrow> s
      | Some (st, y) \<Rightarrow>
          take (st - k) s @ rep @
            (if endIndex y = st
             then (case remaining y of
                     [] \<Rightarrow> []
                   | c # s' \<Rightarrow> c # replace_all r rep (st + 1) s')
             else replace_all r rep (endIndex y) (remaining y)))"
  by pat_completeness auto
termination
proof (relation "measure (\<lambda>(r, rep, k, s). length s)")
  show "wf (measure (\<lambda>(r, rep, k, s). length s))" by simp
next
  fix r :: regex and rep :: string and k :: nat and s :: string
    and x2 :: "nat \<times> mstate" and st :: nat and y :: mstate and c :: char and s' :: string
  assume "exec_from r k s = Some x2" "(st, y) = x2" "endIndex y = st" "remaining y = c # s'"
  then have "exec_from r k s = Some (st, y)" by simp
  from exec_from_forward [OF this] \<open>endIndex y = st\<close> \<open>remaining y = c # s'\<close>
  show "((r, rep, st + 1, s'), (r, rep, k, s)) \<in> measure (\<lambda>(r, rep, k, s). length s)"
    by simp
next
  fix r :: regex and rep :: string and k :: nat and s :: string
    and x2 :: "nat \<times> mstate" and st :: nat and y :: mstate
  assume "exec_from r k s = Some x2" "(st, y) = x2" "endIndex y \<noteq> st"
  then have "exec_from r k s = Some (st, y)" by simp
  from exec_from_forward [OF this] \<open>endIndex y \<noteq> st\<close>
  show "((r, rep, endIndex y, remaining y), (r, rep, k, s)) \<in> measure (\<lambda>(r, rep, k, s). length s)"
    by simp
qed

declare replace_all.simps [simp del]

definition replace_global :: "string \<Rightarrow> regex \<Rightarrow> string \<Rightarrow> string" where
  "replace_global s r rep = replace_all r rep 0 s"

section \<open>The rule catalog (\<^verbatim>\<open>rules/mrpBellmanRules.ts\<close>) and \<^verbatim>\<open>utils/latex.ts\<close>\<close>

text \<open>
  In the texts below a JavaScript string literal \<^verbatim>\<open>"\\\\"\<close> is two backslashes and
  \<^verbatim>\<open>"\\"\<close> is one; in a pattern literal \<^verbatim>\<open>\\\<close> matches one backslash.  In a pattern
  (without the \<^verbatim>\<open>u\<close> flag) a brace that opens no quantifier and a closing bracket or
  brace are literal characters, and an unescaped \<^verbatim>\<open>[\<close> opens a character class that runs
  to the next unescaped \<^verbatim>\<open>]\<close>.
\<close>

text \<open>\<^verbatim>\<open>const normalize = (s) => s.replace(/\s+/g, " ").trim()\<close>\<close>

definition normalize_str :: "string \<Rightarrow> string" where
  "normalize_str s = trim (replace_global s (Plus Space) '' '')"

text \<open>\<^verbatim>\<open>canonicalizeLatex\<close>: \<^verbatim>\<open>s.replace(/\\\\/g, "\\")\<close>\<close>

definition canonicalizeLatex :: "string \<Rightarrow> string" where
  "canonicalizeLatex s = replace_global s (cat [Chr BS, Chr BS]) [BS]"

subsection \<open>\<^verbatim>\<open>def-value\<close>\<close>

text \<open>\<^verbatim>\<open>/v\s*\(\s*s\s*\)/\<close> and \<^verbatim>\<open>/v_\s*\\pi\s*\(\s*s\s*\)/\<close>\<close>

definition re_value :: regex where
  "re_value = cat [lit ''v'', Star Space, lit ''('', Star Space, lit ''s'', Star Space, lit '')'']"

definition re_value_pi :: regex where
  "re_value_pi =
     cat [lit ''v_'', Star Space, Chr BS, lit ''pi'', Star Space, lit ''('', Star Space,
          lit ''s'', Star Space, lit '')'']"

text \<open>The replacement \<^verbatim>\<open>"\\\\mathbb{E}[G_t\\\\mid S_t=s]"\<close>.\<close>

definition expected_return :: string where
  "expected_return = [BS, BS] @ ''mathbb{E}[G_t'' @ [BS, BS] @ ''mid S_t=s]''"

definition def_value :: RewriteRule where
  "def_value =
     \<lparr> id_rule = ''def-value'',
       name = ''Definition of value'',
       nameLatex = Some (''v(s)='' @ [BS] @ ''mathbb{E}[G_t'' @ [BS] @ ''mid S_t=s]''),
       appliesTo = (\<lambda>ltx. Inr (regex_test re_value ltx \<or> regex_test re_value_pi ltx)),
       transform = (\<lambda>ltx.
         let next = replace_global (replace_global ltx re_value_pi expected_return)
                      re_value expected_return
         in Inr (normalize_str next)),
       explanation =
         ''By definition, the value of state s is the expected return starting from s.'' \<rparr>"

subsection \<open>\<^verbatim>\<open>def-return\<close>\<close>

definition def_return :: RewriteRule where
  "def_return =
     \<lparr> id_rule = ''def-return'',
       name = ''Expand return definition'',
       nameLatex = Some (''G_t='' @ [BS] @ ''sum_{k=0}^{'' @ [BS] @ ''infty}'' @ [BS]
                          @ ''gamma^k R_{t+1+k}''),
       appliesTo = (\<lambda>ltx. Inr (includes_str ltx ''G_t''
                      \<and> \<not> includes_str ltx ([BS, BS] @ ''sum_{k=0}^{'' @ [BS] @ ''infty}''))),
       transform = (\<lambda>ltx.
         let next = replace_global ltx (lit ''G_t'')
                      ([BS, BS] @ ''sum_{k=0}^{'' @ [BS, BS] @ ''infty} '' @ [BS, BS]
                        @ ''gamma^k R_{t+1+k}'')
         in Inr (normalize_str next)),
       explanation = ''Return is the discounted sum of future rewards.'' \<rparr>"

subsection \<open>\<^verbatim>\<open>unroll-return\<close>\<close>

text \<open>
  \<^verbatim>\<open>/\\\\sum_\\{k=0\\}\\^\\{\\\\infty\\}\\s*\\\\gamma\\^k\\s*R_\\{t\\+1\\+k\\}/g\<close>.
  Term by term: two backslashes, \<open>sum_\<close>, a backslash, \<open>{k=0\<close>, a backslash, \<open>}\<close>, a
  backslash, the assertion \<^verbatim>\<open>^\<close>, a backslash, \<open>{\<close>, two backslashes, \<open>infty\<close>, a
  backslash, \<open>}\<close>, a backslash, \<^verbatim>\<open>s*\<close>, two backslashes, \<open>gamma\<close>, a backslash, the
  assertion \<^verbatim>\<open>^\<close>, \<open>k\<close>, a backslash, \<^verbatim>\<open>s*\<close>, \<open>R_\<close>, a backslash, \<open>{t\<close>, \<^verbatim>\<open>\\+\<close> (one or
  more backslashes), \<open>1\<close>, \<^verbatim>\<open>\\+\<close>, \<open>k\<close>, a backslash, \<open>}\<close>.
\<close>

definition re_return_sum :: regex where
  "re_return_sum =
     cat [Chr BS, Chr BS, lit ''sum_'', Chr BS, lit ''{k=0'', Chr BS, lit ''}'', Chr BS, Bol,
          Chr BS, lit ''{'', Chr BS, Chr BS, lit ''infty'', Chr BS, lit ''}'', Chr BS,
          Star (Chr CHR ''s''), Chr BS, Chr BS, lit ''gamma'', Chr BS, Bol, lit ''k'', Chr BS,
          Star (Chr CHR ''s''), lit ''R_'', Chr BS, lit ''{t'', Plus (Chr BS), lit ''1'',
          Plus (Chr BS), lit ''k'', Chr BS, lit ''}'']"

text \<open>The form the error message names: \<^verbatim>\<open>\\sum_{k=0}^{\\infty} \\gamma^k R_{t+1+k}\<close>.\<close>

definition return_sum_form :: string where
  "return_sum_form =
     [BS, BS] @ ''sum_{k=0}^{'' @ [BS, BS] @ ''infty} '' @ [BS, BS] @ ''gamma^k R_{t+1+k}''"

definition unroll_return :: RewriteRule where
  "unroll_return =
     \<lparr> id_rule = ''unroll-return'',
       name = ''Unroll return'',
       nameLatex = Some (''G_t = R_{t+1} + '' @ [BS] @ ''gamma G_{t+1}''),
       appliesTo = (\<lambda>ltx. Inr (includes_str ltx ([BS, BS] @ ''sum_{k=0}^{'' @ [BS, BS] @ ''infty}'')
                      \<or> includes_str ltx ''R_{t+1+k}'')),
       transform = (\<lambda>ltx.
         if \<not> regex_test re_return_sum ltx
         then Inl (Error (''Expected the return sum in the form '' @ return_sum_form))
         else (let next = replace_global ltx re_return_sum
                            (''R_{t+1} + '' @ [BS, BS] @ ''gamma'' @ [BS, BS] @ ''sum_{k=0}^{''
                              @ [BS, BS] @ ''infty} '' @ [BS, BS] @ ''gamma^k R_{t+2+k}'')
               in Inr (normalize_str next))),
       explanation = ''Split the first reward from the discounted sum (index shift).'' \<rparr>"

subsection \<open>\<^verbatim>\<open>linearity\<close>\<close>

text \<open>\<^verbatim>\<open>/^R_\{t\+1\}\s*\+\s*\\gamma\s*(.+)$/\<close>\<close>

definition re_inside :: regex where
  "re_inside =
     cat [Bol, lit ''R_{t+1}'', Star Space, lit ''+'', Star Space, Chr BS, lit ''gamma'',
          Star Space, Group (Plus Dot), Eol]"

text \<open>The texts \<^verbatim>\<open>"\\mathbb{E}["\<close> and \<^verbatim>\<open>"\\mid"\<close>, each with one backslash.\<close>

definition expectation_open :: string where
  "expectation_open = [BS] @ ''mathbb{E}[''"

definition mid_bar :: string where
  "mid_bar = [BS] @ ''mid''"

definition linearity :: RewriteRule where
  "linearity =
     \<lparr> id_rule = ''linearity'',
       name = ''Linearity of expectation'',
       nameLatex = Some ([BS] @ ''mathbb{E}[X+'' @ [BS] @ ''gamma Y'' @ [BS] @ ''mid Z]='' @ [BS]
                          @ ''mathbb{E}[X'' @ [BS] @ ''mid Z]+'' @ [BS] @ ''gamma'' @ [BS]
                          @ ''mathbb{E}[Y'' @ [BS] @ ''mid Z]''),
       appliesTo = (\<lambda>ltx. Inr (includes_str ltx expectation_open
                      \<and> includes_str ltx ''R_{t+1}''
                      \<and> includes_str ltx ''+''
                      \<and> includes_str ltx ([BS] @ ''gamma'')
                      \<and> includes_str ltx mid_bar)),
       transform = (\<lambda>ltx.
         case indexOf ltx expectation_open 0 of
           None \<Rightarrow> Inl (Error (''Expected an expression starting with '' @ [BS, BS]
                                @ ''mathbb{E}[ ... ]''))
         | Some start \<Rightarrow>
         (case indexOf ltx mid_bar start of
           None \<Rightarrow> Inl (Error (''Expected a conditional bar '' @ [BS, BS]
                                @ ''mid inside the expectation.''))
         | Some mid \<Rightarrow>
         (case lastIndexOf ltx '']'' of
           None \<Rightarrow> Inl (Error (''Expected a closing ']' for '' @ [BS, BS]
                                @ ''mathbb{E}[ ... ].''))
         | Some end_ \<Rightarrow>
             if end_ < mid
             then Inl (Error (''Expected a closing ']' for '' @ [BS, BS]
                                @ ''mathbb{E}[ ... ].''))
             else (let inside = trim (slice ltx (start + length expectation_open) mid);
                       cond = trim (slice ltx (mid + length mid_bar) end_)
                   in case regex_match re_inside inside of
                        None \<Rightarrow> Inl (Error (''Expected inside expectation: R_{t+1} + ''
                                             @ [BS, BS] @ ''gamma ( ... )''))
                      | Some m2 \<Rightarrow>
                          (case m2 of
                             [] \<Rightarrow> Inl TypeError
                           | g1 # _ \<Rightarrow>
                               (let rest = trim g1
                                in Inr ([BS] @ ''mathbb{E}[R_{t+1}'' @ [BS] @ ''mid '' @ cond
                                         @ ''] + '' @ [BS] @ ''gamma'' @ [BS] @ '','' @ [BS]
                                         @ ''mathbb{E}['' @ rest @ [BS] @ ''mid '' @ cond
                                         @ '']''))))))),
       explanation = ''Expectation is linear; split sums and pull out constants.'' \<rparr>"

subsection \<open>\<^verbatim>\<open>define-r\<close>\<close>

text \<open>
  The predicate's pattern \<^verbatim>\<open>/\\\\mathbb\{E\}\[R_\{t\+1\}\\\\mid\s*S_t\s*=\s*s\]/\<close>: here
  the braces, the bracket and the plus sign are escaped once, so the pattern reads
  two backslashes, \<open>mathbb{E}[R_{t+1}\<close>, two backslashes, \<open>mid\<close>, \<^verbatim>\<open>\s*\<close>, \<open>S_t\<close>,
  \<^verbatim>\<open>\s*\<close>, \<open>=\<close>, \<^verbatim>\<open>\s*\<close>, \<open>s]\<close>.
\<close>

definition re_expected_reward :: regex where
  "re_expected_reward =
     cat [Chr BS, Chr BS, lit ''mathbb{E}[R_{t+1}'', Chr BS, Chr BS, lit ''mid'', Star Space,
          lit ''S_t'', Star Space, lit ''='', Star Space, lit ''s]'']"

text \<open>
  The transform's pattern
  \<^verbatim>\<open>/\\\\mathbb\\{E\\}\\[R_\\{t\\+1\\}\\\\\\mid\\s*S_t\\s*=\\s*s\\]/g\<close>: here every escape
  is doubled, so each \<^verbatim>\<open>\\\<close> is a backslash to match and the character after it stands
  for itself.  The pattern reads two backslashes, \<open>mathbb\<close>, a backslash, \<open>{E\<close>, a
  backslash, \<open>}\<close>, a backslash, and then one character of the class that the unescaped
  \<^verbatim>\<open>[\<close> opens and the final \<^verbatim>\<open>]\<close> closes.  The patterns of the next two rules start
  in the same way.
\<close>

definition expectation_prefix :: "regex list" where
  "expectation_prefix =
     [Chr BS, Chr BS, lit ''mathbb'', Chr BS, lit ''{E'', Chr BS, lit ''}'', Chr BS]"

definition re_expected_reward_replace :: regex where
  "re_expected_reward_replace =
     cat (expectation_prefix @
       [Class (''R_'' @ [BS] @ ''{t'' @ [BS] @ ''+1'' @ [BS] @ ''}'' @ [BS, BS, BS] @ ''mid''
               @ [BS] @ ''s*S_t'' @ [BS] @ ''s*='' @ [BS] @ ''s*s'' @ [BS])])"

definition define_r :: RewriteRule where
  "define_r =
     \<lparr> id_rule = ''define-r'',
       name = ''Define expected reward'',
       nameLatex = Some (''r(s)='' @ [BS] @ ''mathbb{E}[R_{t+1}'' @ [BS] @ ''mid S_t=s]''),
       appliesTo = (\<lambda>ltx. Inr (regex_test re_expected_reward ltx)),
       transform = (\<lambda>ltx.
         let next = replace_global ltx re_expected_reward_replace ''r(s)''
         in Inr (normalize_str next)),
       explanation = ''Define r(s) as the expected one-step reward from state s.'' \<rparr>"

subsection \<open>\<^verbatim>\<open>total-expectation-next-state\<close>\<close>

text \<open>
  Both patterns are the common prefix and one character class; the parentheses, bars and
  quantifiers of the source text lie inside the class.  So the pattern of the transform
  has no capturing group, \<^verbatim>\<open>m[1]\<close> is \<^verbatim>\<open>undefined\<close> whenever there is a match, and
  \<^verbatim>\<open>m[1].trim()\<close> is a TypeError.
\<close>

definition re_total_applies :: regex where
  "re_total_applies =
     cat (expectation_prefix @
       [Class (''(G_'' @ [BS] @ ''{t'' @ [BS] @ ''+1'' @ [BS] @ ''}|G_{t'' @ [BS] @ ''+1}|''
               @ [BS, BS] @ ''sum_'' @ [BS] @ ''{k=0'' @ [BS] @ ''}'' @ [BS] @ ''^'' @ [BS]
               @ ''{'' @ [BS, BS] @ ''infty'' @ [BS] @ ''}).*'' @ [BS, BS, BS] @ ''mid''
               @ [BS] @ ''s*S_t'' @ [BS] @ ''s*='' @ [BS] @ ''s*s'' @ [BS])])"

definition re_total_match :: regex where
  "re_total_match =
     cat (expectation_prefix @
       [Class (''(.+)'' @ [BS, BS, BS] @ ''mid'' @ [BS] @ ''s*S_t'' @ [BS] @ ''s*='' @ [BS]
               @ ''s*s'' @ [BS])])"

definition total_expectation_next_state :: RewriteRule where
  "total_expectation_next_state =
     \<lparr> id_rule = ''total-expectation-next-state'',
       name = ''Law of total expectation over next state'',
       nameLatex = Some ([BS] @ ''mathbb{E}[f(S_{t+1})'' @ [BS] @ ''mid S_t=s]='' @ [BS]
                          @ ''sum_{s'}p(s'' @ [APOS, BS] @ ''mid s)f(s')''),
       appliesTo = (\<lambda>ltx. Inr (regex_test re_total_applies ltx)),
       transform = (\<lambda>ltx.
         case regex_match re_total_match ltx of
           None \<Rightarrow> Inl (Error (''Expected '' @ [BS, BS] @ ''mathbb{E}[ ... '' @ [BS, BS, BS]
                                @ ''mid S_t = s ]''))
         | Some m \<Rightarrow>
             (case m of
                [] \<Rightarrow> Inl TypeError
              | g1 # _ \<Rightarrow>
                  (let X = trim g1;
                       next = [BS, BS] @ ''sum_{s'} p(s'' @ [APOS, BS, BS, BS] @ ''mid s)''
                              @ [BS, BS] @ '','' @ [BS, BS] @ ''mathbb{E}['' @ X
                              @ [BS, BS, BS] @ ''mid S_{t+1}=s']''
                   in Inr (normalize_str next)))),
       explanation =
         ''Condition on S_{t+1} using the law of total expectation (Markov chain transitions).'' \<rparr>"

subsection \<open>\<^verbatim>\<open>value-substitution\<close>\<close>

definition re_next_value_a :: regex where
  "re_next_value_a =
     cat (expectation_prefix @
       [Class (''G_'' @ [BS] @ ''{t'' @ [BS] @ ''+1'' @ [BS] @ ''}'' @ [BS, BS, BS] @ ''mid''
               @ [BS] @ ''s*S_'' @ [BS] @ ''{t'' @ [BS] @ ''+1'' @ [BS] @ ''}=s''
               @ [APOS, BS])])"

definition re_next_value_b :: regex where
  "re_next_value_b =
     cat (expectation_prefix @
       [Class (''G_{t'' @ [BS] @ ''+1}'' @ [BS, BS, BS] @ ''mid'' @ [BS] @ ''s*S_'' @ [BS]
               @ ''{t'' @ [BS] @ ''+1'' @ [BS] @ ''}=s'' @ [APOS, BS])])"

definition re_next_value_c :: regex where
  "re_next_value_c =
     cat (expectation_prefix @
       [Class ([BS, BS] @ ''sum_'' @ [BS] @ ''{k=0'' @ [BS] @ ''}'' @ [BS] @ ''^'' @ [BS]
               @ ''{'' @ [BS, BS] @ ''infty'' @ [BS] @ ''}'' @ [BS] @ ''s*'' @ [BS, BS]
               @ ''gamma'' @ [BS] @ ''^k'' @ [BS] @ ''s*R_'' @ [BS] @ ''{t'' @ [BS] @ ''+2''
               @ [BS] @ ''+k'' @ [BS] @ ''}'' @ [BS, BS, BS] @ ''mid'' @ [BS] @ ''s*S_''
               @ [BS] @ ''{t'' @ [BS] @ ''+1'' @ [BS] @ ''}=s'' @ [APOS, BS])])"

definition value_substitution :: RewriteRule where
  "value_substitution =
     \<lparr> id_rule = ''value-substitution'',
       name = ''Substitute value at next state'',
       nameLatex = Some ([BS] @ ''mathbb{E}[G_{t+1}'' @ [BS] @ ''mid S_{t+1}=s']=v(s')''),
       appliesTo = (\<lambda>ltx. Inr (includes_str ltx ([BS, BS] @ ''mathbb{E}['')
                      \<and> includes_str ltx ([BS, BS, BS] @ ''mid S_{t+1}=s'' @ [APOS]))),
       transform = (\<lambda>ltx.
         let next = replace_global
                      (replace_global (replace_global ltx re_next_value_a ''v(s')'')
                         re_next_value_b ''v(s')'')
                      re_next_value_c ''v(s')''
         in Inr (normalize_str next)),
       explanation = ''Recognize the expected future return from the next state as v(s').'' \<rparr>"

subsection \<open>\<^verbatim>\<open>assemble-bellman\<close>\<close>

text \<open>
  \<^verbatim>\<open>/^r\\(s\\)\\s*\\+\\s*\\\\gamma\\s*\\\\sum_\\{s'\\}\\s*p\\(s'\\\\\\mid\\s*s\\)\\s*,?\\s*v\\(s'\\)$/\<close>
  and the second pattern, which has \<^verbatim>\<open>\\\\,\<close> in the place of \<^verbatim>\<open>\\s*,?\<close>.  With the
  escapes doubled the parentheses are capturing groups and \<^verbatim>\<open>\\+\<close> is one or more
  backslashes.
\<close>

definition assemble_head :: "regex list" where
  "assemble_head =
     [Bol, lit ''r'', Chr BS, Group (cat [lit ''s'', Chr BS]), Chr BS, Star (Chr CHR ''s''),
      Plus (Chr BS), Chr BS, Star (Chr CHR ''s''), Chr BS, Chr BS, lit ''gamma'', Chr BS,
      Star (Chr CHR ''s''), Chr BS, Chr BS, lit ''sum_'', Chr BS, lit ''{s'', Chr APOS,
      Chr BS, lit ''}'', Chr BS, Star (Chr CHR ''s''), lit ''p'', Chr BS,
      Group (cat [lit ''s'', Chr APOS, Chr BS, Chr BS, Chr BS, lit ''mid'', Chr BS,
                  Star (Chr CHR ''s''), lit ''s'', Chr BS])]"

definition assemble_tail :: "regex list" where
  "assemble_tail =
     [Chr BS, Star (Chr CHR ''s''), lit ''v'', Chr BS,
      Group (cat [lit ''s'', Chr APOS, Chr BS]), Eol]"

definition re_assemble :: regex where
  "re_assemble =
     cat (assemble_head @ [Chr BS, Star (Chr CHR ''s''), Opt (Chr CHR '','')] @ assemble_tail)"

definition re_assemble2 :: regex where
  "re_assemble2 = cat (assemble_head @ [Chr BS, Chr BS, lit '',''] @ assemble_tail)"

text \<open>The result, \<^verbatim>\<open>"v(s) = r(s) + \\\\gamma \\\\sum_{s'} p(s'\\\\\\mid s) v(s')"\<close>.\<close>

definition bellman_equation :: string where
  "bellman_equation =
     ''v(s) = r(s) + '' @ [BS, BS] @ ''gamma '' @ [BS, BS] @ ''sum_{s'} p(s''
     @ [APOS, BS, BS, BS] @ ''mid s) v(s')''"

definition assemble_bellman :: RewriteRule where
  "assemble_bellman =
     \<lparr> id_rule = ''assemble-bellman'',
       name = ''Assemble Bellman expectation equation'',
       nameLatex = Some (''v(s)=r(s)+'' @ [BS] @ ''gamma'' @ [BS] @ ''sum_{s'}p(s'' @ [APOS, BS]
                          @ ''mid s)v(s')''),
       appliesTo = (\<lambda>ltx. Inr (includes_str ltx ''r(s)''
                      \<and> includes_str ltx ([BS, BS] @ ''sum_{s'}''))),
       transform = (\<lambda>ltx.
         if \<not> regex_test re_assemble ltx \<and> \<not> regex_test re_assemble2 ltx
         then Inl (Error (''Expected r(s) + '' @ [BS, BS] @ ''gamma '' @ [BS, BS]
                           @ ''sum_{s'} p(s'|s) v(s')''))
         else Inr bellman_equation),
       explanation = ''This is the Bellman expectation equation for an MRP.'' \<rparr>"

definition mrpBellmanRules :: "RewriteRule list" where
  "mrpBellmanRules =
     [def_value, def_return, unroll_return, linearity, define_r,
      total_expectation_next_state, value_substitution, assemble_bellman]"

subsection \<open>Auxiliary notions for stating the rules' properties\<close>

text \<open>
  A continuation that fails on every state past the start of the input: what follows an
  assertion \<^verbatim>\<open>^\<close> once a character has been consumed.
\<close>

definition dead :: "(mstate \<Rightarrow> 'a option) \<Rightarrow> bool" where
  "dead c = (\<forall>y. 0 < endIndex y \<longrightarrow> c y = None)"

text \<open>The expression \<^verbatim>\<open>\\mathbb{E}[R_{t+1}\\mid S_t=s]\<close>, with two backslashes each.\<close>

definition doubled_expected_reward :: string where
  "doubled_expected_reward = [BS, BS] @ ''mathbb{E}[R_{t+1}'' @ [BS, BS] @ ''mid S_t=s]''"

text \<open>
  An expression typed with single backslashes and two spaces inside the condition, and
  what \<open>linearity\<close> makes of it.
\<close>

definition spaced_expectation :: string where
  "spaced_expectation =
     [BS] @ ''mathbb{E}[R_{t+1} + '' @ [BS] @ ''gamma G_{t+1}'' @ [BS] @ ''mid S_t  = s]''"

definition spaced_result :: string where
  "spaced_result =
     [BS] @ ''mathbb{E}[R_{t+1}'' @ [BS] @ ''mid S_t  = s] + '' @ [BS] @ ''gamma'' @ [BS]
     @ '','' @ [BS] @ ''mathbb{E}[G_{t+1}'' @ [BS] @ ''mid S_t  = s]''"

text \<open>
  The characters that a match of a pattern can be made of, and the texts in which the
  character \<open>a\<close> is followed at once by the character \<open>b\<close>.
\<close>

fun consumes :: "regex \<Rightarrow> char \<Rightarrow> bool" where
  "consumes EmptyPattern ch = False"
| "consumes (Chr a) ch = (ch = a)"
| "consumes Dot ch = (\<not> is_line_terminator ch)"
| "consumes Space ch = is_space ch"
| "consumes (Class cs) ch = (ch \<in> set cs)"
| "consumes (Seq r1 r2) ch = (consumes r1 ch \<or> consumes r2 ch)"
| "consumes (Star r) ch = consumes r ch"
| "consumes (Opt r) ch = consumes r ch"
| "consumes Bol ch = False"
| "consumes Eol ch = False"
| "consumes (Group r) ch = consumes r ch"

fun adjacent :: "char \<Rightarrow> char \<Rightarrow> string \<Rightarrow> bool" where
  "adjacent a b (x # y # s) = ((x = a \<and> y = b) \<or> adjacent a b (y # s))"
| "adjacent a b s = False"

text \<open>
  What \<open>normalize_str\<close> does before trimming, as a function of its own: every run of
  white space becomes one space.  And the texts that have no white space but single
  spaces.
\<close>

function collapse :: "string \<Rightarrow> string" where
  "collapse [] = []"
| "collapse (c # cs) =
     (if is_space c then CHR '' '' # collapse (dropWhile is_space cs) else c # collapse cs)"
  by pat_completeness auto
termination
  by (relation "measure length") (auto simp: length_dropWhile_le less_Suc_eq_le)

fun collapsed :: "string \<Rightarrow> bool" where
  "collapsed [] = True"
| "collapsed [c] = (is_space c \<longrightarrow> c = CHR '' '')"
| "collapsed (c # d # t) =
     ((is_space c \<longrightarrow> c = CHR '' '' \<and> \<not> is_space d) \<and> collapsed (d # t))"

section \<open>The derivation history (\<^verbatim>\<open>App.tsx\<close>)\<close>

text \<open>
  The component keeps the list of steps and the index of the active one.  An event
  handler is a function from this state to the next one.
\<close>

record History =
  steps :: "DerivationStep list"
  activeIndex :: nat

definition START :: DerivationStep where
  "START =
     \<lparr> latex = ''v(s)'',
       ruleId = None,
       ruleName = Some ''Start'',
       explanation = Some ''Start from the value function for a state s.'' \<rparr>"

definition initial :: History where
  "initial = \<lparr> steps = [START], activeIndex = 0 \<rparr>"

text \<open>
  The pair of updates that ends both handlers below,
  \<^verbatim>\<open>setSteps((prev) => prev.slice(0, activeIndex + 1).concat(next))\<close> and
  \<^verbatim>\<open>setActiveIndex((_) => activeIndex + 1)\<close>.
\<close>

definition advance :: "History \<Rightarrow> DerivationStep \<Rightarrow> History" where
  "advance h next =
     \<lparr> steps = take (activeIndex h + 1) (steps h) @ [next],
       activeIndex = activeIndex h + 1 \<rparr>"

definition setActiveLatex :: "History \<Rightarrow> string \<Rightarrow> History" where
  "setActiveLatex h nextLatex =
     advance h \<lparr> latex = nextLatex,
                 ruleId = None,
                 ruleName = Some ''Manual edit'',
                 explanation = Some ''You edited the expression.'' \<rparr>"

text \<open>
  The message shown for a caught exception: \<^verbatim>\<open>e.message\<close>.  The text of a TypeError is
  the runtime's own and is represented by its name.
\<close>

fun message :: "error \<Rightarrow> string" where
  "message (Error msg) = msg"
| "message TypeError = ''TypeError''"

definition onApplyRule :: "History \<Rightarrow> string \<Rightarrow> History" where
  "onApplyRule h rid =
     (case find (\<lambda>r. id_rule r = rid) mrpBellmanRules of
        None \<Rightarrow> h
      | Some rule \<Rightarrow>
          (let active = steps h ! activeIndex h in
           case applyRule active rule of
             Inr next \<Rightarrow> advance h next
           | Inl e \<Rightarrow>
               advance h \<lparr> latex = latex active,
                           ruleId = None,
                           ruleName = Some (''Rule failed: '' @ name rule),
                           explanation = Some (message e) \<rparr>))"

definition reset :: "History \<Rightarrow> History" where
  "reset h = \<lparr> steps = [START], activeIndex = 0 \<rparr>"

text \<open>The Back button, \<^verbatim>\<open>setActiveIndex((i) => Math.max(0, i - 1))\<close>, and a click on a step.\<close>

definition goBack :: "History \<Rightarrow> History" where
  "goBack h = h \<lparr> activeIndex := activeIndex h - 1 \<rparr>"

definition goTo :: "History \<Rightarrow> nat \<Rightarrow> History" where
  "goTo h idx = h \<lparr> activeIndex := idx \<rparr>"

section \<open>Properties of the rule engine\<close>

lemma filter_js_total:
  "(\<And>x. x \<in> set xs \<Longrightarrow> \<exists>k. f x = Inr k)
   \<Longrightarrow> filter_js f xs = Inr (filter (\<lambda>x. f x = Inr True) xs)"
proof (induction xs)
  case Nil
  show ?case by simp
next
  case (Cons x xs)
  from Cons.prems obtain k where k: "f x = Inr k" by auto
  have "filter_js f xs = Inr (filter (\<lambda>x. f x = Inr True) xs)"
    using Cons by simp
  with k show ?case by simp
qed

lemma guarded_predicate:
  "try_catch (appliesTo r e) (\<lambda>_. Inr False) = Inr (appliesTo r e = Inr True)"
  by (cases "appliesTo r e") (simp_all add: try_catch_def)

text \<open>
  Claim C1.  For every expression \<open>e\<close> and every catalog \<open>C\<close>, \<open>applicableRules e C\<close>
  returns normally (it is an \<open>Inr\<close>: no exception of a predicate reaches the caller), and
  what it returns is exactly the rules of \<open>C\<close> whose \<open>appliesTo e\<close> returns true, in
  catalog order; a rule whose predicate throws is left out.  In particular the result is
  a subsequence of \<open>C\<close>.
\<close>

theorem applicableRules_exact:
  "applicableRules e C = Inr (filter (\<lambda>r. appliesTo r e = Inr True) C)
   \<and> subseq (filter (\<lambda>r. appliesTo r e = Inr True) C) C"
proof
  have "filter_js (\<lambda>r. try_catch (appliesTo r e) (\<lambda>_. Inr False)) C =
        Inr (filter (\<lambda>r. try_catch (appliesTo r e) (\<lambda>_. Inr False) = Inr True) C)"
    by (rule filter_js_total) (simp add: guarded_predicate)
  then show "applicableRules e C = Inr (filter (\<lambda>r. appliesTo r e = Inr True) C)"
    by (simp add: applicableRules_def guarded_predicate)
next
  show "subseq (filter (\<lambda>r. appliesTo r e = Inr True) C) C"
    by (rule subseq_filter_left)
qed

section \<open>Properties of the matrix kernel\<close>

subsection \<open>\<open>matSub\<close>\<close>

lemma rectangular_row: "rectangular A m n \<Longrightarrow> i < m \<Longrightarrow> length (A ! i) = n"
  by (simp add: rectangular_def list_all_length)

text \<open>
  Claim C8, as stated, fails: \<open>matSub\<close> compares the row counts and the column counts
  of the first rows only.  Here the second rows differ in length, and the call returns a
  matrix instead of failing.
\<close>

theorem matSub_counterexample:
  "length ([[Num 1, Num 2], [Num 3]] ! 1) \<noteq> length ([[Num 1, Num 2], [Num 3, Num 4]] ! 1)
   \<and> matSub [[Num 1, Num 2], [Num 3]] [[Num 1, Num 2], [Num 3, Num 4]]
       = Inr [[Num 0, Num 0], [Num 0]]"
  by (simp add: matSub_def read_at_def upt_rec)

text \<open>
  Claim C8, amended.  For rectangular matrices \<open>A\<close> (\<open>m \<times> n\<close>, with at least one row)
  and \<open>B\<close> (\<open>m' \<times> n'\<close>), \<open>matSub A B\<close> fails with the shape-mismatch error if the row
  counts or the column counts differ, and otherwise returns the matrix of the
  elementwise differences.
\<close>

theorem matSub_rectangular:
  assumes A: "rectangular A m n" and B: "rectangular B m' n'" and m: "0 < m"
  shows "matSub A B =
    (if m \<noteq> m' \<or> n \<noteq> n' then Inl (Error ''Matrix shape mismatch'')
     else Inr (map (\<lambda>i. map (\<lambda>j. num_sub (A ! i ! j) (B ! i ! j)) [0..<n]) [0..<m]))"
proof (cases "m = m'")
  case False
  with A B show ?thesis by (simp add: matSub_def rectangular_def)
next
  case True
  have lA: "length A = m" and lB: "length B = m"
    using A B True by (simp_all add: rectangular_def)
  have ne: "A \<noteq> []" using lA m by auto
  have r0: "length (A ! 0) = n" "length (B ! 0) = n'"
    using rectangular_row [OF A m] rectangular_row [OF B] m True by simp_all
  show ?thesis
  proof (cases "n = n'")
    case False
    with True lA lB ne r0 show ?thesis by (simp add: matSub_def)
  next
    case n: True
    have "map (\<lambda>i. map (\<lambda>j. num_sub (A ! i ! j) (read_at (B ! i) j)) [0..<length (A ! i)]) [0..<m]
        = map (\<lambda>i. map (\<lambda>j. num_sub (A ! i ! j) (B ! i ! j)) [0..<n]) [0..<m]"
      using rectangular_row [OF A] rectangular_row [OF B] True n
      by (simp add: read_at_def)
    with True n lA lB ne r0 show ?thesis by (simp add: matSub_def)
  qed
qed

theorem matSub_rectangular_witness:
  "matSub [[Num 5, Num 7]] [[Num 1, Num 2]] = Inr [[Num 4, Num 5]]
   \<and> matSub [[Num 5, Num 7]] [[Num 1], [Num 2]] = Inl (Error ''Matrix shape mismatch'')"
proof -
  have a: "rectangular [[Num 5, Num 7]] 1 2" by (simp add: rectangular_def)
  have b: "rectangular [[Num 1, Num 2]] 1 2" by (simp add: rectangular_def)
  have c: "rectangular [[Num 1], [Num 2]] 2 1" by (simp add: rectangular_def)
  show ?thesis
    using matSub_rectangular [OF a b] matSub_rectangular [OF a c]
    by (simp add: upt_rec)
qed

subsection \<open>The solver stops at a pivot below the tolerance\<close>



text \<open>
  The pivot search returns a row from \<open>col\<close> on; and where the column holds no NaN
  from row \<open>col\<close> on, no entry of the column from row \<open>col\<close> on has a greater absolute
  value than the entry of the chosen row.
\<close>

lemma num_abs_NaN [simp]: "num_abs x = NaN \<longleftrightarrow> x = NaN"
  by (cases x) simp_all

lemma num_le_lt_trans:
  "a \<noteq> NaN \<Longrightarrow> b \<noteq> NaN \<Longrightarrow> \<not> num_lt a b \<Longrightarrow> num_lt a c \<Longrightarrow> num_lt b c"
  by (cases a; cases b; cases c) simp_all

lemma num_lt_asym: "num_lt a b \<Longrightarrow> \<not> num_lt b a"
  by (cases a; cases b) simp_all

lemma find_pivot_range:
  "col \<le> pivot \<Longrightarrow> pivot < n \<Longrightarrow> col \<le> r
   \<Longrightarrow> col \<le> find_pivot A col n r pivot \<and> find_pivot A col n r pivot < n"
proof (induction "n - r" arbitrary: r pivot)
  case 0
  then show ?case by (subst (1 2) find_pivot.simps) simp
next
  case (Suc d)
  then have r: "r < n" and d: "d = n - (r + 1)" by simp_all
  show ?case
    using r Suc.prems Suc.hyps(1) [OF d, of pivot] Suc.hyps(1) [OF d, of r]
    by (subst (1 2) find_pivot.simps) simp
qed

lemma find_pivot_maximal:
  assumes nan: "\<And>i. col \<le> i \<Longrightarrow> i < n \<Longrightarrow> read_at (A ! i) col \<noteq> NaN"
  shows "col \<le> pivot \<Longrightarrow> pivot < r \<Longrightarrow> r \<le> n
    \<Longrightarrow> (\<And>i. col \<le> i \<Longrightarrow> i < r \<Longrightarrow>
           \<not> num_lt (num_abs (read_at (A ! pivot) col)) (num_abs (read_at (A ! i) col)))
    \<Longrightarrow> col \<le> i \<Longrightarrow> i < n
    \<Longrightarrow> \<not> num_lt (num_abs (read_at (A ! find_pivot A col n r pivot) col))
               (num_abs (read_at (A ! i) col))"
proof (induction "n - r" arbitrary: r pivot)
  case 0
  then show ?case by (subst find_pivot.simps) simp
next
  case (Suc d)
  then have r: "r < n" and d: "d = n - (r + 1)" by simp_all
  let ?v = "\<lambda>i. num_abs (read_at (A ! i) col)"
  show ?case
  proof (cases "num_lt (?v pivot) (?v r)")
    case True
    have m: "\<not> num_lt (?v r) (?v j)" if j: "col \<le> j" "j < r + 1" for j
    proof (cases "j = r")
      case True
      then show ?thesis using num_lt_asym by blast
    next
      case False
      with j have jr: "j < r" by simp
      have pj: "\<not> num_lt (?v pivot) (?v j)" using Suc.prems(4) [OF j(1) jr] .
      have nn: "?v pivot \<noteq> NaN" "?v j \<noteq> NaN"
        using nan [of pivot] nan [of j] Suc.prems(1,2) r j jr by simp_all
      show ?thesis
      proof
        assume "num_lt (?v r) (?v j)"
        with True have "num_lt (?v pivot) (?v j)"
          by (cases "?v pivot"; cases "?v r"; cases "?v j") simp_all
        with pj show False ..
      qed
    qed
    have "\<not> num_lt (?v (find_pivot A col n (r + 1) r)) (?v i)"
      using Suc.prems(1,2) r
      by (intro Suc.hyps(1) [OF d] m Suc.prems(5,6)) simp_all
    with True r show ?thesis by (subst find_pivot.simps) simp
  next
    case False
    have m: "\<not> num_lt (?v pivot) (?v j)" if j: "col \<le> j" "j < r + 1" for j
      using False Suc.prems(4) [OF j(1)] j(2) by (cases "j = r") simp_all
    have "\<not> num_lt (?v (find_pivot A col n (r + 1) pivot)) (?v i)"
      using Suc.prems(1,2) r
      by (intro Suc.hyps(1) [OF d] m Suc.prems(5,6)) simp_all
    with False r show ?thesis by (subst find_pivot.simps) simp
  qed
qed

lemma chosen_pivot_range:
  "col < n \<Longrightarrow> col \<le> chosen_pivot A col n \<and> chosen_pivot A col n < n"
  unfolding chosen_pivot_def by (rule find_pivot_range) simp_all

lemma chosen_pivot_maximal:
  assumes "\<And>i. col \<le> i \<Longrightarrow> i < n \<Longrightarrow> read_at (A ! i) col \<noteq> NaN"
    and "col \<le> i" "i < n"
  shows "\<not> num_lt (num_abs (read_at (A ! chosen_pivot A col n) col))
               (num_abs (read_at (A ! i) col))"
  unfolding chosen_pivot_def
proof (rule find_pivot_maximal [OF assms(1)])
  fix j assume "col \<le> j" "j < col + 1"
  then have "j = col" by simp
  then show "\<not> num_lt (num_abs (read_at (A ! col) col)) (num_abs (read_at (A ! j) col))"
    by (cases "num_abs (read_at (A ! col) col)") simp_all
qed (use assms in simp_all)




subsection \<open>The solver on the identity matrix\<close>

lemma find_pivot_stay:
  "(\<And>r'. r \<le> r' \<Longrightarrow> r' < n \<Longrightarrow>
      \<not> num_lt (num_abs (read_at (A ! pivot) col)) (num_abs (read_at (A ! r') col)))
   \<Longrightarrow> find_pivot A col n r pivot = pivot"
proof (induction "n - r" arbitrary: r)
  case 0
  then show ?case by (subst find_pivot.simps) simp
next
  case (Suc d)
  then have r: "r < n" and d: "d = n - (r + 1)" by simp_all
  have "find_pivot A col n (r + 1) pivot = pivot"
    using Suc.hyps(1) [OF d] Suc.prems by simp
  moreover have "\<not> num_lt (num_abs (read_at (A ! pivot) col)) (num_abs (read_at (A ! r) col))"
    using Suc.prems r by simp
  ultimately show ?case using r by (subst find_pivot.simps) simp
qed

lemma length_identity [simp]: "length (identity n) = n"
  by (simp add: identity_def)

lemma length_unit_row [simp]: "length (unit_row n i) = n"
  by (simp add: unit_row_def)

lemma nth_unit_row [simp]: "j < n \<Longrightarrow> unit_row n i ! j = (if i = j then 1 else 0)"
  by (simp add: unit_row_def)

lemma identity_row: "i < n \<Longrightarrow> identity n ! i = map Num (unit_row n i)"
  by (simp add: identity_def unit_row_def)

lemma identity_entry:
  "i < n \<Longrightarrow> j < n \<Longrightarrow> read_at (identity n ! i) j = (if i = j then Num 1 else Num 0)"
  by (simp add: identity_def read_at_def)

lemma elim_row_zero:
  "n \<le> length qs \<Longrightarrow> n \<le> length ps
   \<Longrightarrow> elim_row (Num 0) (map Num ps) n c (map Num qs) = map Num qs"
proof (induction "n - c" arbitrary: c)
  case 0
  then show ?case by (subst elim_row.simps) simp
next
  case (Suc d)
  then have c: "c < n" and d: "d = n - (c + 1)" by simp_all
  have w: "write_at (map Num qs) c
             (num_sub (read_at (map Num qs) c) (num_mul (Num 0) (read_at (map Num ps) c)))
           = map Num qs"
    using c Suc.prems by (simp add: write_at_def read_at_def list_update_same_conv)
  show ?case
    using c w Suc.hyps(1) [OF d] Suc.prems by (subst elim_row.simps) simp
qed

lemma eliminate_identity:
  "length rs = n \<Longrightarrow> col < r \<Longrightarrow> col < n
   \<Longrightarrow> eliminate n col r (identity n, map Num rs) = (identity n, map Num rs)"
proof (induction "n - r" arbitrary: r)
  case 0
  then show ?case by (subst eliminate.simps) simp
next
  case (Suc d)
  then have r: "r < n" and d: "d = n - (r + 1)" by simp_all
  have f: "num_div (read_at (identity n ! r) col) (read_at (identity n ! col) col) = Num 0"
    using r Suc.prems by (simp add: identity_entry)
  have e: "elim_row (Num 0) (identity n ! col) n col (identity n ! r) = identity n ! r"
    using r Suc.prems by (simp add: identity_row elim_row_zero)
  have b: "(map Num rs)[r := num_sub (map Num rs ! r) (num_mul (Num 0) (map Num rs ! col))]
             = map Num rs"
    using r Suc.prems by (simp add: list_update_same_conv)
  have "eliminate n col (r + 1) (identity n, map Num rs) = (identity n, map Num rs)"
    using Suc.hyps(1) [OF d] Suc.prems by simp
  then show ?case
    using r f e b by (subst eliminate.simps) (simp add: Let_def list_update_same_conv)
qed

lemma pivot_step_identity:
  assumes "length rs = n" "col < n"
  shows "pivot_step n col (identity n, map Num rs) = Inr (identity n, map Num rs)"
proof -
  have p: "find_pivot (identity n) col n (col + 1) col = col"
    using assms by (intro find_pivot_stay) (simp add: identity_entry)
  have t: "\<not> num_lt (num_abs (read_at (identity n ! col) col)) tolerance"
    using assms by (simp add: identity_entry tolerance_def)
  show ?thesis
    using p t assms eliminate_identity [of rs n col "col + 1"]
    by (simp add: pivot_step_def Let_def)
qed

lemma forward_identity:
  "length rs = n \<Longrightarrow> forward n col (identity n, map Num rs) = Inr (identity n, map Num rs)"
proof (induction "n - col" arbitrary: col)
  case 0
  then show ?case by (subst forward.simps) simp
next
  case (Suc d)
  then have c: "col < n" and d: "d = n - (col + 1)" by simp_all
  show ?case
    using c Suc.hyps(1) [OF d] Suc.prems pivot_step_identity [of rs n col]
    by (subst forward.simps) simp
qed

lemma row_sum_zero:
  "n \<le> length zs \<Longrightarrow> n \<le> length xs \<Longrightarrow> (\<And>c'. c \<le> c' \<Longrightarrow> c' < n \<Longrightarrow> zs ! c' = 0)
   \<Longrightarrow> row_sum (map Num zs) (map Num xs) n c (Num v) = Num v"
proof (induction "n - c" arbitrary: c)
  case 0
  then show ?case by (subst row_sum.simps) simp
next
  case (Suc d)
  then have c: "c < n" and d: "d = n - (c + 1)" by simp_all
  have z: "zs ! c = 0" using Suc.prems c by simp
  have "row_sum (map Num zs) (map Num xs) n (c + 1) (Num v) = Num v"
    using Suc.hyps(1) [OF d] Suc.prems by simp
  then show ?case
    using c z Suc.prems by (subst row_sum.simps) (simp add: read_at_def)
qed

lemma back_substitute_identity:
  "length rs = n \<Longrightarrow> length xs = n \<Longrightarrow> k \<le> n
   \<Longrightarrow> back_substitute (identity n) (map Num rs) n k (map Num xs)
       = map Num (take k rs @ drop k xs)"
proof (induction k arbitrary: xs)
  case 0
  then show ?case by simp
next
  case (Suc r)
  then have r: "r < n" by simp
  have s: "row_sum (identity n ! r) (map Num xs) n (r + 1) (map Num rs ! r) = Num (rs ! r)"
    using r Suc.prems by (simp add: identity_row row_sum_zero)
  have u: "(map Num xs)[r := num_div (Num (rs ! r)) (read_at (identity n ! r) r)]
            = map Num (xs[r := rs ! r])"
    using r by (simp add: identity_entry map_update)
  have "back_substitute (identity n) (map Num rs) n r (map Num (xs[r := rs ! r]))
          = map Num (take r rs @ drop r (xs[r := rs ! r]))"
    using Suc.IH [of "xs[r := rs ! r]"] Suc.prems by simp
  also have "take r rs @ drop r (xs[r := rs ! r]) = take (Suc r) rs @ drop (Suc r) xs"
    using r Suc.prems by (simp add: take_Suc_conv_app_nth drop_update_cancel Cons_nth_drop_Suc [symmetric] upd_conv_take_nth_drop)
  finally show ?case using s u by (simp add: Let_def)
qed

text \<open>
  Claim C3, amended.  For every vector of \<open>n\<close> finite numbers (any \<open>n\<close>, also 0),
  solving the system of the \<open>n \<times> n\<close> identity matrix succeeds and returns the vector
  itself.  Every operation involved (\<open>0 / 1\<close>, \<open>0 * x\<close>, \<open>x - 0\<close>, \<open>x / 1\<close>) is exact in
  IEEE-754 arithmetic as well.
\<close>

theorem solve_identity_finite:
  "solveLinearSystem (identity (length rs)) (map Num rs) = Inr (map Num rs)"
proof -
  have "replicate (length rs) (Num 0) = map Num (replicate (length rs) 0)" by simp
  then show ?thesis
    using forward_identity [of rs "length rs" 0]
      back_substitute_identity [of rs "length rs" "replicate (length rs) 0" "length rs"]
    by (simp add: solveLinearSystem_def cloneMat_def del: map_replicate)
qed

text \<open>
  Claim C3, as stated for every vector, fails on a vector with an infinite entry: the
  elimination computes \<open>b[1] - 0 * b[0]\<close> with \<open>0 * Infinity = NaN\<close>, and the NaN
  spreads through the back-substitution.
\<close>

theorem solve_identity_counterexample:
  "solveLinearSystem (identity 2) [Infinity, Num 5] = Inr [NaN, NaN]"
  by (simp add: solveLinearSystem_def cloneMat_def forward.simps pivot_step_def
      find_pivot.simps eliminate.simps elim_row.simps row_sum.simps read_at_def write_at_def
      tolerance_def identity_def Let_def upt_rec signed_inf_def numeral_2_eq_2)

section \<open>Properties of the solver on the heap\<close>

subsection \<open>The solver writes to its own copies only\<close>

lemma unchanged_below_refl [simp]: "unchanged_below k h h"
  by (simp add: unchanged_below_def)

lemma unchanged_below_trans:
  "unchanged_below k h h1 \<Longrightarrow> unchanged_below k h1 h2 \<Longrightarrow> unchanged_below k h h2"
  by (simp add: unchanged_below_def)

lemma unchanged_below_mono:
  "unchanged_below k h h' \<Longrightarrow> j \<le> k \<Longrightarrow> unchanged_below j h h'"
  by (simp add: unchanged_below_def)

lemma alloc_nums_frame:
  "alloc_nums xs h = (a, h') \<Longrightarrow>
     a = fresh h \<and> fresh h' = fresh h + 1 \<and> rows h' = rows h \<and> unchanged_below (fresh h) h h'"
  by (auto simp: alloc_nums_def unchanged_below_def)

lemma alloc_rows_frame:
  "alloc_rows rs h = (a, h') \<Longrightarrow>
     a = fresh h \<and> fresh h' = fresh h + 1 \<and> rows h' a = rs \<and> unchanged_below (fresh h) h h'"
  by (auto simp: alloc_rows_def unchanged_below_def)

lemma clone_rows_frame:
  "clone_rows rs h = (rs', h') \<Longrightarrow>
     fresh h \<le> fresh h' \<and> length rs' = length rs \<and> (\<forall>r\<in>set rs'. fresh h \<le> r)
     \<and> unchanged_below (fresh h) h h'"
proof (induction rs arbitrary: h rs' h')
  case Nil
  then show ?case by simp
next
  case (Cons r rs)
  obtain r' h1 where a: "alloc_nums (nums h r) h = (r', h1)" by fastforce
  obtain rs1 h2 where c: "clone_rows rs h1 = (rs1, h2)" by fastforce
  from Cons.prems a c have eq: "rs' = r' # rs1" "h' = h2" by simp_all
  from alloc_nums_frame [OF a] have a': "r' = fresh h" "fresh h1 = fresh h + 1"
    "unchanged_below (fresh h) h h1" by simp_all
  from Cons.IH [OF c] have c': "fresh h1 \<le> fresh h2" "length rs1 = length rs"
    "\<forall>r\<in>set rs1. fresh h1 \<le> r" "unchanged_below (fresh h1) h1 h2" by simp_all
  have "unchanged_below (fresh h) h h2"
    using a'(3) unchanged_below_mono [OF c'(4), of "fresh h"] a'(2)
    by (auto intro: unchanged_below_trans)
  with eq a' c' show ?case by auto
qed

lemma cloneMat_heap_frame:
  assumes "cloneMat_heap Ain h = (A, h')"
  shows "fresh h \<le> A \<and> fresh h \<le> fresh h' \<and> (\<forall>r\<in>set (rows h' A). fresh h \<le> r)
     \<and> unchanged_below (fresh h) h h'"
proof -
  obtain rs1 h1 where c: "clone_rows (rows h Ain) h = (rs1, h1)" by fastforce
  with assms have a: "alloc_rows rs1 h1 = (A, h')" by (simp add: cloneMat_heap_def)
  from clone_rows_frame [OF c] have c': "fresh h \<le> fresh h1" "\<forall>r\<in>set rs1. fresh h \<le> r"
    "unchanged_below (fresh h) h h1" by simp_all
  from alloc_rows_frame [OF a] have a': "A = fresh h1" "fresh h' = fresh h1 + 1" "rows h' A = rs1"
    "unchanged_below (fresh h1) h1 h'" by blast+
  have "unchanged_below (fresh h) h h'"
    using c'(3) unchanged_below_mono [OF a'(4) c'(1)] by (rule unchanged_below_trans)
  with a' c' show ?thesis by auto
qed

lemma set_entry_frame:
  "working_above k A b n h \<Longrightarrow> r < n \<Longrightarrow>
     working_above k A b n (set_entry h A r c v) \<and> unchanged_below k h (set_entry h A r c v)"
proof -
  assume w: "working_above k A b n h" and r: "r < n"
  then have "rows h A ! r \<in> set (rows h A)" by (simp add: working_above_def)
  with w have "k \<le> rows h A ! r" by (simp add: working_above_def)
  with w show ?thesis
    by (auto simp: working_above_def set_entry_def unchanged_below_def)
qed

lemma set_elem_frame:
  "working_above k A b n h \<Longrightarrow> k \<le> x \<Longrightarrow>
     working_above k A b n (set_elem h x r v) \<and> unchanged_below k h (set_elem h x r v)"
  by (auto simp: working_above_def set_elem_def unchanged_below_def)

lemma swap_elems_frame:
  "working_above k A b n h \<Longrightarrow>
     working_above k A b n (swap_elems h b i j) \<and> unchanged_below k h (swap_elems h b i j)"
  by (auto simp: working_above_def swap_elems_def unchanged_below_def)

lemma swap_rows_frame:
  assumes "working_above k A b n h" "i < n" "j < n"
  shows "working_above k A b n (swap_rows h A i j) \<and> unchanged_below k h (swap_rows h A i j)"
proof -
  have "set ((rows h A)[i := rows h A ! j, j := rows h A ! i]) \<subseteq> set (rows h A)"
    using assms by (auto simp: working_above_def dest!: set_update_subset_insert [THEN subsetD])
  with assms show ?thesis
    by (auto simp: working_above_def swap_rows_def unchanged_below_def)
qed

lemma elim_row_heap_frame:
  "working_above k A b n h \<Longrightarrow> r < n \<Longrightarrow>
     working_above k A b n (elim_row_heap factor A r col n c h)
     \<and> unchanged_below k h (elim_row_heap factor A r col n c h)"
proof (induction "n - c" arbitrary: c h)
  case 0
  then show ?case by (subst (1 2) elim_row_heap.simps) simp
next
  case (Suc d)
  then have c: "c < n" and d: "d = n - (c + 1)" by simp_all
  let ?h1 = "set_entry h A r c
                (num_sub (get_entry h A r c) (num_mul factor (get_entry h A col c)))"
  from set_entry_frame [OF Suc.prems] have s: "working_above k A b n ?h1"
    "unchanged_below k h ?h1" by simp_all
  from Suc.hyps(1) [OF d s(1) Suc.prems(2)] s(2) c show ?case
    by (subst (1 2) elim_row_heap.simps) (auto intro: unchanged_below_trans)
qed

lemma eliminate_heap_frame:
  "working_above k A b n h \<Longrightarrow>
     working_above k A b n (eliminate_heap A b n col r h)
     \<and> unchanged_below k h (eliminate_heap A b n col r h)"
proof (induction "n - r" arbitrary: r h)
  case 0
  then show ?case by (subst (1 2) eliminate_heap.simps) simp
next
  case (Suc d)
  then have r: "r < n" and d: "d = n - (r + 1)" by simp_all
  define factor where "factor = num_div (get_entry h A r col) (get_entry h A col col)"
  define h1 where "h1 = elim_row_heap factor A r col n col h"
  define h2 where "h2 = set_elem h1 b r
                       (num_sub (get_elem h1 b r) (num_mul factor (get_elem h1 b col)))"
  from elim_row_heap_frame [OF Suc.prems r] have 1: "working_above k A b n h1"
    "unchanged_below k h h1" by (simp_all add: h1_def)
  have kb: "k \<le> b" using Suc.prems by (simp add: working_above_def)
  from set_elem_frame [OF 1(1) kb] have 2: "working_above k A b n h2"
    "unchanged_below k h1 h2" by (simp_all add: h2_def)
  from Suc.hyps(1) [OF d 2(1)] have 3: "working_above k A b n (eliminate_heap A b n col (r + 1) h2)"
    "unchanged_below k h2 (eliminate_heap A b n col (r + 1) h2)" by simp_all
  have e: "eliminate_heap A b n col r h = eliminate_heap A b n col (r + 1) h2"
    using r by (subst eliminate_heap.simps) (simp add: Let_def factor_def h1_def h2_def)
  from 1 2 3 show ?case
    unfolding e by (auto intro: unchanged_below_trans)
qed

lemma find_pivot_heap_bound:
  "pivot < n \<Longrightarrow> find_pivot_heap h A col n r pivot < n"
proof (induction "n - r" arbitrary: r pivot)
  case 0
  then show ?case by (subst find_pivot_heap.simps) simp
next
  case (Suc d)
  then have r: "r < n" and d: "d = n - (r + 1)" by simp_all
  show ?case
    using r Suc.hyps(1) [OF d] Suc.prems
    by (subst find_pivot_heap.simps) simp
qed

lemma pivot_step_heap_frame:
  assumes "working_above k A b n h" "col < n" "pivot_step_heap A b n col h = (res, h')"
  shows "working_above k A b n h' \<and> unchanged_below k h h'"
proof -
  define pivot where "pivot = find_pivot_heap h A col n (col + 1) col"
  have p: "pivot < n" unfolding pivot_def using assms(2) by (rule find_pivot_heap_bound)
  show ?thesis
  proof (cases "num_lt (num_abs (get_entry h A pivot col)) tolerance")
    case True
    with assms show ?thesis by (simp add: pivot_step_heap_def pivot_def)
  next
    case False
    from swap_rows_frame [OF assms(1,2) p] have 1: "working_above k A b n (swap_rows h A col pivot)"
      "unchanged_below k h (swap_rows h A col pivot)" by simp_all
    from swap_elems_frame [OF 1(1)] have 2:
      "working_above k A b n (swap_elems (swap_rows h A col pivot) b col pivot)"
      "unchanged_below k (swap_rows h A col pivot) (swap_elems (swap_rows h A col pivot) b col pivot)"
      by simp_all
    from eliminate_heap_frame [OF 2(1)] have 3:
      "working_above k A b n (eliminate_heap A b n col (col + 1)
           (swap_elems (swap_rows h A col pivot) b col pivot))"
      "unchanged_below k (swap_elems (swap_rows h A col pivot) b col pivot)
         (eliminate_heap A b n col (col + 1) (swap_elems (swap_rows h A col pivot) b col pivot))"
      by simp_all
    have "h' = eliminate_heap A b n col (col + 1) (swap_elems (swap_rows h A col pivot) b col pivot)"
      using assms(3) False by (simp add: pivot_step_heap_def pivot_def Let_def)
    with 1 2 3 show ?thesis by (auto intro: unchanged_below_trans)
  qed
qed

lemma forward_heap_frame:
  "working_above k A b n h \<Longrightarrow> forward_heap A b n col h = (res, h')
   \<Longrightarrow> working_above k A b n h' \<and> unchanged_below k h h'"
proof (induction "n - col" arbitrary: col h)
  case 0
  then show ?case by (subst (asm) forward_heap.simps) simp
next
  case (Suc d)
  then have c: "col < n" and d: "d = n - (col + 1)" by simp_all
  obtain r1 h1 where p: "pivot_step_heap A b n col h = (r1, h1)" by fastforce
  from pivot_step_heap_frame [OF Suc.prems(1) c p] have 1: "working_above k A b n h1"
    "unchanged_below k h h1" by simp_all
  show ?case
  proof (cases r1)
    case (Inl e)
    with Suc.prems(2) c p have "h' = h1" by (subst (asm) forward_heap.simps) simp
    with 1 show ?thesis by simp
  next
    case (Inr u)
    with Suc.prems(2) c p have "forward_heap A b n (col + 1) h1 = (res, h')"
      by (subst (asm) forward_heap.simps) simp
    from Suc.hyps(1) [OF d 1(1) this] 1(2) show ?thesis
      by (auto intro: unchanged_below_trans)
  qed
qed

lemma back_substitute_heap_frame:
  "working_above k A b n h \<Longrightarrow> k \<le> x
   \<Longrightarrow> unchanged_below k h (back_substitute_heap A b x n r h)"
proof (induction r arbitrary: h)
  case 0
  then show ?case by simp
next
  case (Suc r)
  let ?h1 = "set_elem h x r (num_div (row_sum_heap h A x r n (r + 1) (get_elem h b r))
                               (get_entry h A r r))"
  from set_elem_frame [OF Suc.prems] have 1: "working_above k A b n ?h1"
    "unchanged_below k h ?h1" by simp_all
  from Suc.IH [OF 1(1) Suc.prems(2)] 1(2) show ?case
    by (auto simp: Let_def intro: unchanged_below_trans)
qed

lemma solveLinearSystem_heap_frame:
  "unchanged_below (fresh h) h (snd (solveLinearSystem_heap Ain bIn h))"
proof -
  obtain A h1 where c: "cloneMat_heap Ain h = (A, h1)" by fastforce
  obtain b h2 where a: "alloc_nums (nums h1 bIn) h1 = (b, h2)" by fastforce
  define n where "n = length (rows h2 A)"
  from cloneMat_heap_frame [OF c] have c': "fresh h \<le> A" "fresh h \<le> fresh h1"
    "\<forall>r\<in>set (rows h1 A). fresh h \<le> r" "unchanged_below (fresh h) h h1" by simp_all
  from alloc_nums_frame [OF a] have a': "b = fresh h1" "fresh h2 = fresh h1 + 1" "rows h2 = rows h1"
    "unchanged_below (fresh h1) h1 h2" by simp_all
  have u2: "unchanged_below (fresh h) h h2"
    using c'(4) unchanged_below_mono [OF a'(4) c'(2)] by (rule unchanged_below_trans)
  have w2: "working_above (fresh h) A b n h2"
    using c' a' by (simp add: working_above_def n_def)
  show ?thesis
  proof (cases "length (nums h2 b) \<noteq> n")
    case True
    with c a u2 show ?thesis by (simp add: solveLinearSystem_heap_def n_def)
  next
    case False
    obtain r3 h3 where f: "forward_heap A b n 0 h2 = (r3, h3)" by fastforce
    from forward_heap_frame [OF w2 f] have 3: "working_above (fresh h) A b n h3"
      "unchanged_below (fresh h) h2 h3" by simp_all
    have u3: "unchanged_below (fresh h) h h3" using u2 3(2) by (rule unchanged_below_trans)
    show ?thesis
    proof (cases r3)
      case (Inl e)
      with c a f False u3 show ?thesis
        by (simp add: solveLinearSystem_heap_def n_def [symmetric])
    next
      case (Inr u)
      obtain x h4 where x: "alloc_nums (replicate n (Num 0)) h3 = (x, h4)" by fastforce
      from alloc_nums_frame [OF x] have x': "x = fresh h3" "rows h4 = rows h3"
        "unchanged_below (fresh h3) h3 h4" by simp_all
      have l3: "fresh h \<le> fresh h3"
        using u3 by (simp add: unchanged_below_def)
      have u4: "unchanged_below (fresh h) h h4"
        using u3 unchanged_below_mono [OF x'(3) l3] by (rule unchanged_below_trans)
      have w4: "working_above (fresh h) A b n h4"
        using 3(1) x'(2) by (simp add: working_above_def)
      have "unchanged_below (fresh h) h4 (back_substitute_heap A b x n n h4)"
        using w4 l3 x'(1) by (intro back_substitute_heap_frame) simp_all
      with u4 have "unchanged_below (fresh h) h (back_substitute_heap A b x n n h4)"
        by (rule unchanged_below_trans)
      with c a f False Inr x show ?thesis
        by (simp add: solveLinearSystem_heap_def n_def [symmetric])
    qed
  qed
qed

text \<open>
  Claim C9.  Let the caller's matrix (the array at \<open>Ain\<close> and the rows it refers to) and
  vector (the array at \<open>bIn\<close>) be allocated.  After \<open>solveLinearSystem\<close>, whether it
  returned a solution or threw, the array at \<open>Ain\<close> holds the same references, each of the
  rows holds the same numbers, and the array at \<open>bIn\<close> holds the same numbers as before
  (as does every other array allocated before the call).
\<close>

theorem solve_leaves_inputs:
  assumes "Ain < fresh h" and "bIn < fresh h" and "\<forall>r\<in>set (rows h Ain). r < fresh h"
  shows "rows (snd (solveLinearSystem_heap Ain bIn h)) Ain = rows h Ain
    \<and> map (nums (snd (solveLinearSystem_heap Ain bIn h))) (rows h Ain)
        = map (nums h) (rows h Ain)
    \<and> nums (snd (solveLinearSystem_heap Ain bIn h)) bIn = nums h bIn
    \<and> unchanged_below (fresh h) h (snd (solveLinearSystem_heap Ain bIn h))"
  using assms solveLinearSystem_heap_frame [of h Ain bIn]
  by (simp add: unchanged_below_def)

text \<open>
  The theorem on the example heap: the system of \<open>[[2,1],[1,3]]\<close> and \<open>[3,5]\<close> is solved
  (into a new array, at address 12), the system of \<open>[[1,1],[1,1]]\<close> and \<open>[3,5]\<close> fails, and
  both calls leave the matrix and the vector as they were.
\<close>

theorem solve_leaves_inputs_witness:
  "fst (solveLinearSystem_heap 0 3 example_heap) = Inr 12
   \<and> nums (snd (solveLinearSystem_heap 0 3 example_heap)) 12 = [Num (4 / 5), Num (7 / 5)]
   \<and> rows (snd (solveLinearSystem_heap 0 3 example_heap)) 0 = [1, 2]
   \<and> map (nums (snd (solveLinearSystem_heap 0 3 example_heap))) [1, 2]
       = [[Num 2, Num 1], [Num 1, Num 3]]
   \<and> nums (snd (solveLinearSystem_heap 0 3 example_heap)) 3 = [Num 3, Num 5]
   \<and> fst (solveLinearSystem_heap 5 3 example_heap)
       = Inl (Error ''Matrix is singular or ill-conditioned'')
   \<and> rows (snd (solveLinearSystem_heap 5 3 example_heap)) 5 = [6, 7]
   \<and> map (nums (snd (solveLinearSystem_heap 5 3 example_heap))) [6, 7]
       = [[Num 1, Num 1], [Num 1, Num 1]]
   \<and> nums (snd (solveLinearSystem_heap 5 3 example_heap)) 3 = [Num 3, Num 5]"
proof -
  have a: "(0::nat) < fresh example_heap" "(5::nat) < fresh example_heap" "(3::nat) < fresh example_heap"
    "\<forall>r\<in>set (rows example_heap 0). r < fresh example_heap"
    "\<forall>r\<in>set (rows example_heap 5). r < fresh example_heap"
    by (simp_all add: example_heap_def)
  have v: "rows example_heap 0 = [1, 2]" "rows example_heap 5 = [6, 7]"
    "nums example_heap 1 = [Num 2, Num 1]" "nums example_heap 2 = [Num 1, Num 3]"
    "nums example_heap 3 = [Num 3, Num 5]"
    "nums example_heap 6 = [Num 1, Num 1]" "nums example_heap 7 = [Num 1, Num 1]"
    by (simp_all add: example_heap_def)
  have r: "fst (solveLinearSystem_heap 0 3 example_heap) = Inr 12"
    "nums (snd (solveLinearSystem_heap 0 3 example_heap)) 12 = [Num (4 / 5), Num (7 / 5)]"
    "fst (solveLinearSystem_heap 5 3 example_heap)
       = Inl (Error ''Matrix is singular or ill-conditioned'')"
    by code_simp+
  from solve_leaves_inputs [OF a(1) a(3) a(4)] solve_leaves_inputs [OF a(2) a(3) a(5)] v r
  show ?thesis by simp
qed

subsection \<open>The solver on the heap computes what the solver on values computes\<close>

lemma get_entry_mat:
  "r < length (rows h A) \<Longrightarrow> get_entry h A r c = read_at (mat_of h A ! r) c"
  by (simp add: get_entry_def mat_of_def)

lemma set_entry_mat:
  assumes "separate h A b x n" "r < n"
  shows "mat_of (set_entry h A r c v) A = (mat_of h A)[r := write_at (mat_of h A ! r) c v]"
    and "rows (set_entry h A r c v) = rows h"
    and "nums (set_entry h A r c v) b = nums h b"
    and "nums (set_entry h A r c v) x = nums h x"
proof -
  have l: "length (rows h A) = n" and d: "distinct (rows h A)"
    using assms by (simp_all add: separate_def)
  have "map ((nums h)(rows h A ! r := w)) (rows h A) = (map (nums h) (rows h A))[r := w]" for w
    using l d assms(2)
    by (auto simp: list_eq_iff_nth_eq nth_list_update nth_eq_iff_index_eq)
  then show "mat_of (set_entry h A r c v) A = (mat_of h A)[r := write_at (mat_of h A ! r) c v]"
    using l assms(2) by (simp add: mat_of_def set_entry_def)
  show "rows (set_entry h A r c v) = rows h" by (simp add: set_entry_def)
  have "rows h A ! r \<in> set (rows h A)" using l assms(2) by simp
  with assms show "nums (set_entry h A r c v) b = nums h b" "nums (set_entry h A r c v) x = nums h x"
    by (auto simp: set_entry_def separate_def)
qed

lemma separate_set_entry:
  "separate h A b x n \<Longrightarrow> separate (set_entry h A r c v) A b x n"
  by (simp add: separate_def set_entry_def)

lemma find_pivot_heap_mat:
  "n \<le> length (rows h A) \<Longrightarrow> pivot < n
   \<Longrightarrow> find_pivot_heap h A col n r pivot = find_pivot (mat_of h A) col n r pivot"
proof (induction "n - r" arbitrary: r pivot)
  case 0
  then show ?case by (subst find_pivot_heap.simps, subst find_pivot.simps) simp
next
  case (Suc d)
  then have r: "r < n" and d: "d = n - (r + 1)" by simp_all
  show ?case
    using r Suc.prems Suc.hyps(1) [OF d Suc.prems(1)]
    by (subst find_pivot_heap.simps, subst find_pivot.simps) (simp add: get_entry_mat)
qed

lemma elim_row_heap_mat:
  assumes "separate h A b x n" "r < n" "col < n" "r \<noteq> col"
  shows "mat_of (elim_row_heap f A r col n c h) A
           = (mat_of h A)[r := elim_row f (mat_of h A ! col) n c (mat_of h A ! r)]
       \<and> rows (elim_row_heap f A r col n c h) = rows h
       \<and> nums (elim_row_heap f A r col n c h) b = nums h b
       \<and> nums (elim_row_heap f A r col n c h) x = nums h x"
  using assms(1)
proof (induction "n - c" arbitrary: c h)
  case 0
  then have l: "length (rows h A) = n" by (simp add: separate_def)
  from 0 show ?case
    by (subst (1 2 3 4) elim_row_heap.simps, subst elim_row.simps)
       (simp add: mat_of_def list_update_same_conv)
next
  case (Suc d)
  then have c: "c < n" and d: "d = n - (c + 1)" by simp_all
  have l: "length (rows h A) = n" using Suc.prems by (simp add: separate_def)
  define v where "v = num_sub (get_entry h A r c) (num_mul f (get_entry h A col c))"
  define h1 where "h1 = set_entry h A r c v"
  have v': "v = num_sub (read_at (mat_of h A ! r) c) (num_mul f (read_at (mat_of h A ! col) c))"
    using l assms by (simp add: v_def get_entry_mat)
  note s = set_entry_mat [OF Suc.prems assms(2), of c v, folded h1_def]
  have s1: "separate h1 A b x n" unfolding h1_def using Suc.prems by (rule separate_set_entry)
  have lm: "length (mat_of h A) = n" using l by (simp add: mat_of_def)
  have IH: "mat_of (elim_row_heap f A r col n (c + 1) h1) A
           = (mat_of h1 A)[r := elim_row f (mat_of h1 A ! col) n (c + 1) (mat_of h1 A ! r)]
       \<and> rows (elim_row_heap f A r col n (c + 1) h1) = rows h1
       \<and> nums (elim_row_heap f A r col n (c + 1) h1) b = nums h1 b
       \<and> nums (elim_row_heap f A r col n (c + 1) h1) x = nums h1 x"
    using Suc.hyps(1) [OF d s1] .
  have e: "elim_row_heap f A r col n c h = elim_row_heap f A r col n (c + 1) h1"
    using c by (subst elim_row_heap.simps) (simp add: h1_def v_def)
  have p: "elim_row f (mat_of h A ! col) n c (mat_of h A ! r)
         = elim_row f (mat_of h A ! col) n (c + 1) (write_at (mat_of h A ! r) c v)"
    using c by (subst elim_row.simps) (simp add: v')
  show ?case
    unfolding e p using IH s lm assms by simp
qed


lemma set_elem_mat:
  assumes "separate h A b x n" "y \<notin> set (rows h A)"
  shows "mat_of (set_elem h y r v) A = mat_of h A"
    and "rows (set_elem h y r v) = rows h"
    and "separate (set_elem h y r v) A b x n"
  using assms by (auto simp: mat_of_def set_elem_def separate_def)

lemma separate_rows_eq:
  "separate h A b x n \<Longrightarrow> rows h' = rows h \<Longrightarrow> separate h' A b x n"
  by (simp add: separate_def)

lemma eliminate_heap_mat:
  assumes "col < n"
  shows "separate h A b x n \<Longrightarrow> col < r \<Longrightarrow>
    (mat_of (eliminate_heap A b n col r h) A, nums (eliminate_heap A b n col r h) b)
       = eliminate n col r (mat_of h A, nums h b)
    \<and> rows (eliminate_heap A b n col r h) = rows h
    \<and> nums (eliminate_heap A b n col r h) x = nums h x"
proof (induction "n - r" arbitrary: r h)
  case 0
  then show ?case by (subst (1 2 3 4) eliminate_heap.simps, subst eliminate.simps) simp
next
  case (Suc d)
  then have r: "r < n" and d: "d = n - (r + 1)" and rc: "r \<noteq> col" by simp_all
  have l: "length (rows h A) = n" using Suc.prems by (simp add: separate_def)
  have bx: "b \<notin> set (rows h A)" "x \<noteq> b" using Suc.prems by (simp_all add: separate_def)
  define factor where "factor = num_div (get_entry h A r col) (get_entry h A col col)"
  define h1 where "h1 = elim_row_heap factor A r col n col h"
  define h2 where "h2 = set_elem h1 b r
                       (num_sub (get_elem h1 b r) (num_mul factor (get_elem h1 b col)))"
  have f': "factor = num_div (read_at (mat_of h A ! r) col) (read_at (mat_of h A ! col) col)"
    using l r assms by (simp add: factor_def get_entry_mat)
  from elim_row_heap_mat [OF Suc.prems(1) r assms rc, of factor col, folded h1_def]
  have 1: "mat_of h1 A = (mat_of h A)[r := elim_row factor (mat_of h A ! col) n col (mat_of h A ! r)]"
    "rows h1 = rows h" "nums h1 b = nums h b" "nums h1 x = nums h x" by simp_all
  have s1: "separate h1 A b x n" using Suc.prems(1) 1(2) by (rule separate_rows_eq)
  have b1: "b \<notin> set (rows h1 A)" using bx 1(2) by simp
  note 2 = set_elem_mat [OF s1 b1, of r "num_sub (get_elem h1 b r) (num_mul factor (get_elem h1 b col))",
      folded h2_def]
  have n2: "nums h2 b = (nums h b)[r := num_sub (nums h b ! r) (num_mul factor (nums h b ! col))]"
    "nums h2 x = nums h x"
    using 1(3,4) bx by (simp_all add: h2_def set_elem_def get_elem_def)
  have e: "eliminate_heap A b n col r h = eliminate_heap A b n col (r + 1) h2"
    using r by (subst eliminate_heap.simps) (simp add: Let_def factor_def h1_def h2_def)
  have p: "eliminate n col r (mat_of h A, nums h b)
         = eliminate n col (r + 1) (mat_of h2 A, nums h2 b)"
    using r by (subst eliminate.simps) (simp add: Let_def f' [symmetric] 1 2 n2)
  have "col < r + 1" using Suc.prems(2) by simp
  from Suc.hyps(1) [OF d 2(3) this] show ?case
    unfolding e p using 1(2) 2(2) n2(2) by simp
qed

lemma swap_rows_mat:
  assumes "separate h A b x n" "i < n" "j < n"
  shows "mat_of (swap_rows h A i j) A = (mat_of h A)[i := mat_of h A ! j, j := mat_of h A ! i]"
    and "nums (swap_rows h A i j) = nums h"
    and "separate (swap_rows h A i j) A b x n"
proof -
  have l: "length (rows h A) = n" and d: "distinct (rows h A)"
    using assms by (simp_all add: separate_def)
  show "mat_of (swap_rows h A i j) A = (mat_of h A)[i := mat_of h A ! j, j := mat_of h A ! i]"
    using l assms(2,3) by (simp add: mat_of_def swap_rows_def map_update)
  show "nums (swap_rows h A i j) = nums h" by (simp add: swap_rows_def)
  have "distinct ((rows h A)[i := rows h A ! j, j := rows h A ! i])"
    using l d assms(2,3) by (simp add: distinct_swap)
  moreover have "set ((rows h A)[i := rows h A ! j, j := rows h A ! i]) = set (rows h A)"
    using l assms(2,3) by (simp add: set_swap)
  ultimately show "separate (swap_rows h A i j) A b x n"
    using assms(1) by (simp add: separate_def swap_rows_def)
qed

lemma swap_elems_mat:
  assumes "separate h A b x n"
  shows "mat_of (swap_elems h b i j) A = mat_of h A"
    and "nums (swap_elems h b i j) b = (nums h b)[i := nums h b ! j, j := nums h b ! i]"
    and "nums (swap_elems h b i j) x = nums h x"
    and "separate (swap_elems h b i j) A b x n"
  using assms by (auto simp: mat_of_def swap_elems_def separate_def)

lemma find_pivot_bound:
  "pivot < n \<Longrightarrow> find_pivot M col n r pivot < n"
proof (induction "n - r" arbitrary: r pivot)
  case 0
  then show ?case by (subst find_pivot.simps) simp
next
  case (Suc d)
  then have r: "r < n" and d: "d = n - (r + 1)" by simp_all
  show ?case
    using r Suc.hyps(1) [OF d] Suc.prems by (subst find_pivot.simps) simp
qed

lemma pivot_step_heap_mat:
  assumes "separate h A b x n" "col < n" "pivot_step_heap A b n col h = (res, h')"
  shows "(case res of Inl e \<Rightarrow> Inl e | Inr u \<Rightarrow> Inr (mat_of h' A, nums h' b))
           = pivot_step n col (mat_of h A, nums h b)
       \<and> separate h' A b x n \<and> nums h' x = nums h x"
proof -
  have l: "length (rows h A) = n" using assms by (simp add: separate_def)
  define pivot where "pivot = find_pivot_heap h A col n (Suc col) col"
  have pe: "pivot = find_pivot (mat_of h A) col n (Suc col) col"
    unfolding pivot_def using l assms(2) by (intro find_pivot_heap_mat) simp_all
  have p: "pivot < n" unfolding pe using assms(2) by (rule find_pivot_bound)
  have g: "get_entry h A pivot col = read_at (mat_of h A ! pivot) col"
    using l p by (simp add: get_entry_mat)
  show ?thesis
  proof (cases "num_lt (num_abs (get_entry h A pivot col)) tolerance")
    case True
    have "pivot_step n col (mat_of h A, nums h b)
        = Inl (Error ''Matrix is singular or ill-conditioned'')"
      using True g by (simp add: pivot_step_def pe [symmetric] Let_def)
    moreover have "res = Inl (Error ''Matrix is singular or ill-conditioned'')" "h' = h"
      using assms(3) True by (auto simp: pivot_step_heap_def pivot_def Let_def)
    ultimately show ?thesis using assms(1) by simp
  next
    case False
    define h1 where "h1 = swap_rows h A col pivot"
    define h2 where "h2 = swap_elems h1 b col pivot"
    note 1 = swap_rows_mat [OF assms(1,2) p, folded h1_def]
    note 2 = swap_elems_mat [OF 1(3), of col pivot, folded h2_def]
    have "col < col + 1" by simp
    note 3 = eliminate_heap_mat [OF assms(2) 2(4) this]
    have r: "res = Inr ()" "h' = eliminate_heap A b n col (col + 1) h2"
      using assms(3) False by (auto simp: pivot_step_heap_def pivot_def Let_def h1_def h2_def)
    have "pivot_step n col (mat_of h A, nums h b)
        = Inr (eliminate n col (col + 1) (mat_of h2 A, nums h2 b))"
      using False g by (simp add: pivot_step_def pe [symmetric] Let_def 1 2)
    moreover have "separate h' A b x n"
      using 2(4) 3 r by (auto intro: separate_rows_eq)
    ultimately show ?thesis using r 3 1 2 by simp
  qed
qed

lemma forward_heap_mat:
  "separate h A b x n \<Longrightarrow> forward_heap A b n col h = (res, h')
   \<Longrightarrow> (case res of Inl e \<Rightarrow> Inl e | Inr u \<Rightarrow> Inr (mat_of h' A, nums h' b))
           = forward n col (mat_of h A, nums h b)
       \<and> separate h' A b x n \<and> nums h' x = nums h x"
proof (induction "n - col" arbitrary: col h)
  case 0
  then show ?case by (subst (asm) forward_heap.simps, subst forward.simps) auto
next
  case (Suc d)
  then have c: "col < n" and d: "d = n - (col + 1)" by simp_all
  obtain r1 h1 where p: "pivot_step_heap A b n col h = (r1, h1)" by fastforce
  note 1 = pivot_step_heap_mat [OF Suc.prems(1) c p]
  show ?case
  proof (cases r1)
    case (Inl e)
    with Suc.prems(2) c p have "res = Inl e" "h' = h1" by (subst (asm) forward_heap.simps, simp)+
    with 1 Inl c show ?thesis by (subst forward.simps) (auto split: sum.splits)
  next
    case (Inr u)
    with Suc.prems(2) c p have f: "forward_heap A b n (col + 1) h1 = (res, h')"
      by (subst (asm) forward_heap.simps) simp
    from 1 Inr have s1: "separate h1 A b x n" and x1: "nums h1 x = nums h x"
      and e1: "pivot_step n col (mat_of h A, nums h b) = Inr (mat_of h1 A, nums h1 b)"
      by simp_all
    from Suc.hyps(1) [OF d s1 f] x1 e1 c show ?thesis
      by (subst forward.simps) simp
  qed
qed

lemma row_sum_heap_mat:
  "r < length (rows h A) \<Longrightarrow>
   row_sum_heap h A x r n c acc = row_sum (mat_of h A ! r) (nums h x) n c acc"
proof (induction "n - c" arbitrary: c acc)
  case 0
  then show ?case by (subst row_sum_heap.simps, subst row_sum.simps) simp
next
  case (Suc d)
  then have c: "c < n" and d: "d = n - (c + 1)" by simp_all
  show ?case
    using c Suc.hyps(1) [OF d Suc.prems]
    by (subst row_sum_heap.simps, subst row_sum.simps) (simp add: get_entry_mat Suc.prems)
qed

lemma back_substitute_heap_mat:
  "separate h A b x n \<Longrightarrow> k \<le> n \<Longrightarrow>
   nums (back_substitute_heap A b x n k h) x
     = back_substitute (mat_of h A) (nums h b) n k (nums h x)"
proof (induction k arbitrary: h)
  case 0
  then show ?case by simp
next
  case (Suc r)
  then have r: "r < n" by simp
  have l: "length (rows h A) = n" and xr: "x \<notin> set (rows h A)" and xb: "x \<noteq> b"
    using Suc.prems by (simp_all add: separate_def)
  define acc where "acc = row_sum_heap h A x r n (Suc r) (get_elem h b r)"
  define h1 where "h1 = set_elem h x r (num_div acc (get_entry h A r r))"
  have a': "acc = row_sum (mat_of h A ! r) (nums h x) n (Suc r) (nums h b ! r)"
    using l r by (simp add: acc_def row_sum_heap_mat get_elem_def)
  note 1 = set_elem_mat [OF Suc.prems(1) xr, of r "num_div acc (get_entry h A r r)", folded h1_def]
  have n1: "nums h1 b = nums h b"
    "nums h1 x = (nums h x)[r := num_div acc (read_at (mat_of h A ! r) r)]"
    using xb l r by (simp_all add: h1_def set_elem_def get_entry_mat)
  from Suc.IH [OF 1(3)] r
  have "nums (back_substitute_heap A b x n r h1) x
     = back_substitute (mat_of h1 A) (nums h1 b) n r (nums h1 x)" by simp
  then show ?case
    by (simp add: Let_def acc_def [symmetric] h1_def [symmetric] 1 n1 a' [symmetric])
qed


lemma clone_rows_mat:
  "clone_rows rs h = (rs', h') \<Longrightarrow> \<forall>r\<in>set rs. r < fresh h \<Longrightarrow>
     map (nums h') rs' = map (nums h) rs \<and> distinct rs'
     \<and> (\<forall>r\<in>set rs'. fresh h \<le> r \<and> r < fresh h') \<and> rows h' = rows h
     \<and> (\<forall>a<fresh h. nums h' a = nums h a) \<and> fresh h \<le> fresh h'"
proof (induction rs arbitrary: h rs' h')
  case Nil
  then show ?case by simp
next
  case (Cons r rs)
  obtain r' h1 where a: "alloc_nums (nums h r) h = (r', h1)" by fastforce
  obtain rs1 h2 where c: "clone_rows rs h1 = (rs1, h2)" by fastforce
  from Cons.prems(1) a c have eq: "rs' = r' # rs1" "h' = h2" by simp_all
  from a have a': "r' = fresh h" "fresh h1 = fresh h + 1" "rows h1 = rows h"
    "nums h1 = (nums h)(fresh h := nums h r)"
    by (auto simp: alloc_nums_def)
  have "\<forall>r\<in>set rs. r < fresh h1" using Cons.prems(2) a'(2) by auto
  from Cons.IH [OF c this]
  have c': "map (nums h2) rs1 = map (nums h1) rs" "distinct rs1"
    "\<forall>r\<in>set rs1. fresh h1 \<le> r \<and> r < fresh h2" "rows h2 = rows h1"
    "\<forall>a<fresh h1. nums h2 a = nums h1 a" "fresh h1 \<le> fresh h2" by simp_all
  have m: "map (nums h1) rs = map (nums h) rs"
    using Cons.prems(2) a'(4) by auto
  have f: "nums h2 r' = nums h r" using c'(5) a' by simp
  have d: "r' \<notin> set rs1" using c'(3) a'(1,2) by auto
  show ?case
    unfolding eq using a' c' m f d by auto
qed

text \<open>
  On a heap where the caller's rows and vector are allocated, the call returns the
  exception or the solution that \<open>solveLinearSystem\<close> computes from the matrix and the
  vector as values.
\<close>

lemma solveLinearSystem_heap_refines:
  assumes b: "bIn < fresh h" and A: "\<forall>r\<in>set (rows h Ain). r < fresh h"
  shows "(case solveLinearSystem_heap Ain bIn h of
            (Inl e, h') \<Rightarrow> Inl e
          | (Inr x, h') \<Rightarrow> Inr (nums h' x))
         = solveLinearSystem (mat_of h Ain) (nums h bIn)"
proof -
  obtain rs1 h0 where c: "clone_rows (rows h Ain) h = (rs1, h0)" by fastforce
  define A' where "A' = fresh h0"
  define h1 where "h1 = h0 \<lparr> rows := (rows h0)(fresh h0 := rs1), fresh := fresh h0 + 1 \<rparr>"
  have cm: "cloneMat_heap Ain h = (A', h1)"
    using c by (simp add: cloneMat_heap_def alloc_rows_def A'_def h1_def)
  from clone_rows_mat [OF c A]
  have c': "map (nums h0) rs1 = map (nums h) (rows h Ain)" "distinct rs1"
    "\<forall>r\<in>set rs1. fresh h \<le> r \<and> r < fresh h0"
    "\<forall>a<fresh h. nums h0 a = nums h a" "fresh h \<le> fresh h0" by simp_all
  define b' where "b' = fresh h1"
  define h2 where "h2 = h1 \<lparr> nums := (nums h1)(fresh h1 := nums h1 bIn), fresh := fresh h1 + 1 \<rparr>"
  have ab: "alloc_nums (nums h1 bIn) h1 = (b', h2)"
    by (simp add: alloc_nums_def b'_def h2_def)
  define n where "n = length (rows h2 A')"
  have r2: "rows h2 A' = rs1" by (simp add: h2_def h1_def A'_def)
  have n': "n = length (mat_of h Ain)"
    using c'(1) by (simp add: n_def r2 mat_of_def) (metis length_map)
  have nb: "nums h2 b' = nums h bIn"
    using b c'(4) by (simp add: h2_def b'_def h1_def)
  have m2: "mat_of h2 A' = mat_of h Ain"
  proof -
    have "map (nums h2) rs1 = map (nums h0) rs1"
      using c'(3) by (auto simp: h2_def h1_def)
    with c'(1) show ?thesis by (simp add: mat_of_def r2)
  qed
  obtain r3 h3 where f: "forward_heap A' b' n 0 h2 = (r3, h3)" by fastforce
  have nr: "n = length rs1" by (simp add: n_def r2)
  have w2: "working_above (fresh h) A' b' n h2"
    unfolding working_above_def r2
    using c' by (auto simp: nr A'_def b'_def h1_def)
  from forward_heap_frame [OF w2 f] have l3: "fresh h2 \<le> fresh h3"
    by (simp add: unchanged_below_def)
  define x where "x = fresh h3"
  have s2: "separate h2 A' b' x n"
    using c'(2,3) l3
    unfolding separate_def r2
    by (auto simp: nr x_def b'_def h2_def h1_def)
  from forward_heap_mat [OF s2 f]
  have 3: "(case r3 of Inl e \<Rightarrow> Inl e | Inr u \<Rightarrow> Inr (mat_of h3 A', nums h3 b'))
           = forward n 0 (mat_of h Ain, nums h bIn)"
    "separate h3 A' b' x n"
    by (simp_all add: m2 nb)
  have pure: "solveLinearSystem (mat_of h Ain) (nums h bIn) =
      (if length (nums h bIn) \<noteq> n then Inl (Error ''b length mismatch'')
       else (case forward n 0 (mat_of h Ain, nums h bIn) of
               Inl e \<Rightarrow> Inl e
             | Inr (M, v) \<Rightarrow> Inr (back_substitute M v n n (replicate n (Num 0)))))"
    by (simp add: solveLinearSystem_def cloneMat_def Let_def n' [symmetric]
        cong: sum.case_cong prod.case_cong)
  have heap: "solveLinearSystem_heap Ain bIn h =
      (if length (nums h bIn) \<noteq> n then (Inl (Error ''b length mismatch''), h2)
       else (case r3 of
               Inl e \<Rightarrow> (Inl e, h3)
             | Inr u \<Rightarrow>
                 (case alloc_nums (replicate n (Num 0)) h3 of (x, h4) \<Rightarrow>
                    (Inr x, back_substitute_heap A' b' x n n h4))))"
    using cm ab f nb by (simp add: solveLinearSystem_heap_def n_def [symmetric] Let_def
        cong: sum.case_cong prod.case_cong)
  show ?thesis
  proof (cases r3)
    case (Inl e)
    with 3(1) have "forward n 0 (mat_of h Ain, nums h bIn) = Inl e" by simp
    with Inl show ?thesis unfolding pure heap by simp
  next
    case (Inr u)
    define h4 where "h4 = h3 \<lparr> nums := (nums h3)(fresh h3 := replicate n (Num 0)),
                               fresh := fresh h3 + 1 \<rparr>"
    have ax: "alloc_nums (replicate n (Num 0)) h3 = (x, h4)"
      by (simp add: alloc_nums_def x_def h4_def)
    have s4: "separate h4 A' b' x n" using 3(2) by (simp add: separate_def h4_def)
    have m4: "mat_of h4 A' = mat_of h3 A'" "nums h4 b' = nums h3 b'"
      "nums h4 x = replicate n (Num 0)"
      using 3(2) by (auto simp: mat_of_def separate_def h4_def x_def)
    from back_substitute_heap_mat [OF s4, of n]
    have bs: "nums (back_substitute_heap A' b' x n n h4) x
       = back_substitute (mat_of h3 A') (nums h3 b') n n (replicate n (Num 0))"
      by (simp add: m4)
    from 3(1) Inr have fw: "forward n 0 (mat_of h Ain, nums h bIn)
       = Inr (mat_of h3 A', nums h3 b')" by simp
    show ?thesis unfolding pure heap using Inr ax bs fw by simp
  qed
qed

section \<open>Properties of the rule catalog\<close>

subsection \<open>\<open>def-value\<close> on the start step\<close>

text \<open>
  Claim C6, as stated, fails: the step that \<open>def-value\<close> yields from the start step has
  the expression \<^verbatim>\<open>\\mathbb{E}[G_t\\mid S_t=s]\<close> with two backslashes before \<open>mathbb\<close> and
  before \<open>mid\<close>, and the text \<^verbatim>\<open>\mathbb{E}[G_t\mid S_t=s]\<close> with one backslash each is
  not a substring of it.
\<close>

theorem def_value_counterexample:
  "applyRule START def_value =
     Inr \<lparr> latex = expected_return,
           ruleId = Some ''def-value'',
           ruleName = Some ''Definition of value'',
           explanation =
             Some ''By definition, the value of state s is the expected return starting from s.'' \<rparr>
   \<and> \<not> includes_str expected_return ([BS] @ ''mathbb{E}[G_t'' @ [BS] @ ''mid S_t=s]'')"
  by code_simp

text \<open>
  Claim C6, amended.  The catalog rule with the id \<open>def-value\<close>, applied to the start
  step \<open>v(s)\<close>, succeeds and yields a step (labelled with the rule's id, name and
  explanation) whose expression is \<^verbatim>\<open>\\mathbb{E}[G_t\\mid S_t=s]\<close> with doubled
  backslashes; \<open>canonicalizeLatex\<close>, which the display applies, turns it into
  \<^verbatim>\<open>\mathbb{E}[G_t\mid S_t=s]\<close>.
\<close>

theorem def_value_on_start:
  "find (\<lambda>r. id_rule r = ''def-value'') mrpBellmanRules = Some def_value
   \<and> latex START = ''v(s)''
   \<and> applyRule START def_value =
       Inr \<lparr> latex = [BS, BS] @ ''mathbb{E}[G_t'' @ [BS, BS] @ ''mid S_t=s]'',
             ruleId = Some (id_rule def_value),
             ruleName = Some (name def_value),
             explanation = Some (RewriteRule.explanation def_value) \<rparr>
   \<and> canonicalizeLatex ([BS, BS] @ ''mathbb{E}[G_t'' @ [BS, BS] @ ''mid S_t=s]'')
       = [BS] @ ''mathbb{E}[G_t'' @ [BS] @ ''mid S_t=s]''"
proof (intro conjI)
  show "find (\<lambda>r. id_rule r = ''def-value'') mrpBellmanRules = Some def_value"
    by (simp add: mrpBellmanRules_def def_value_def)
qed code_simp+

subsection \<open>\<open>unroll-return\<close> fails\<close>

lemma char_matcher_dead: "dead c \<Longrightarrow> char_matcher P c x = None"
  by (simp add: dead_def char_matcher_def advance_char_def split: list.splits)

lemma dead_literal: "dead c \<Longrightarrow> dead (matcher (cat (map Chr s)) c)"
proof (induction s)
  case Nil
  then show ?case by (simp add: dead_def)
next
  case (Cons a s)
  then show ?case
    by (cases s) (simp_all add: dead_def char_matcher_dead)
qed

lemma dead_Seq_Bol: "dead (matcher (Seq Bol r) c)"
  by (simp add: dead_def)

lemma dead_Seq_Chr: "dead (matcher r c) \<Longrightarrow> dead (matcher (Seq (Chr a) r) c)"
  by (simp add: dead_def char_matcher_dead)

lemma dead_Seq_lit: "dead (matcher r c) \<Longrightarrow> dead (matcher (Seq (lit s) r) c)"
  using dead_literal [of "matcher r c" s] by (simp add: dead_def lit_def)

lemma Seq_Chr_dead: "dead (matcher r c) \<Longrightarrow> matcher (Seq (Chr a) r) c x = None"
  by (simp add: char_matcher_dead)

text \<open>
  The pattern of \<open>unroll-return\<close> asks for the start of the input after fourteen
  characters: it matches nowhere in any string.
\<close>

lemma re_return_sum_never: "matcher re_return_sum c x = None"
  unfolding re_return_sum_def cat.simps
  by (rule Seq_Chr_dead) (intro dead_Seq_Bol dead_Seq_Chr dead_Seq_lit)

lemma exec_from_never: "(\<And>k s. match_at r k s = None) \<Longrightarrow> exec_from r k s = None"
  by (induction s arbitrary: k) simp_all

lemma re_return_sum_test: "\<not> regex_test re_return_sum s"
  by (simp add: regex_test_def exec_from_never match_at_def re_return_sum_never)

lemma unroll_return_always_fails:
  "applyRule cur unroll_return =
     Inl (Error (''Expected the return sum in the form '' @ return_sum_form))"
  by (simp add: applyRule_def unroll_return_def re_return_sum_test)

text \<open>
  Claim C7.  Let the expression of the current step be accepted by the predicate of
  \<open>unroll-return\<close> and have no match of the pattern its transform requires.  Then
  applying the catalog rule with the id \<open>unroll-return\<close> fails: \<open>applyRule\<close> returns the
  exception itself, an \<open>Error\<close> whose message is
  \<^verbatim>\<open>Expected the return sum in the form \\sum_{k=0}^{\\infty} \\gamma^k R_{t+1+k}\<close>.
\<close>

theorem unroll_return_fails:
  assumes "appliesTo unroll_return (latex cur) = Inr True"
    and "\<not> regex_test re_return_sum (latex cur)"
  shows "find (\<lambda>r. id_rule r = ''unroll-return'') mrpBellmanRules = Some unroll_return
    \<and> applyRule cur unroll_return =
        Inl (Error (''Expected the return sum in the form '' @ return_sum_form))"
  using assms
  by (simp add: applyRule_def mrpBellmanRules_def unroll_return_def def_value_def def_return_def)

theorem unroll_return_fails_witness:
  "appliesTo unroll_return (latex (START \<lparr> latex := ''R_{t+1+k}'' \<rparr>)) = Inr True
   \<and> \<not> regex_test re_return_sum (latex (START \<lparr> latex := ''R_{t+1+k}'' \<rparr>))
   \<and> applyRule (START \<lparr> latex := ''R_{t+1+k}'' \<rparr>) unroll_return =
        Inl (Error (''Expected the return sum in the form '' @ return_sum_form))"
proof -
  have a: "appliesTo unroll_return (latex (START \<lparr> latex := ''R_{t+1+k}'' \<rparr>)) = Inr True"
    by code_simp
  have b: "\<not> regex_test re_return_sum (latex (START \<lparr> latex := ''R_{t+1+k}'' \<rparr>))"
    by code_simp
  from unroll_return_fails [OF a b] a b show ?thesis by simp
qed

subsection \<open>\<open>define-r\<close> accepts an expression and leaves it as it is\<close>

text \<open>
  What a match consumes: a match of a pattern is a text made of characters the pattern
  can consume, and a match of a pattern that starts with literal characters starts with
  them.
\<close>

lemma char_matcher_text:
  "char_matcher P c x = Some res \<Longrightarrow>
     \<exists>y ch. c y = Some res \<and> remaining x = ch # remaining y \<and> P ch"
  by (cases "remaining x") (auto simp: char_matcher_def advance_char_def split: if_splits)

lemma matcher_text:
  "matcher r c x = Some res \<Longrightarrow>
     \<exists>y w. c y = Some res \<and> remaining x = w @ remaining y \<and> (\<forall>ch\<in>set w. consumes r ch)"
proof (induction r c x arbitrary: res rule: matcher.induct)
  case (1 c x)
  then show ?case by (intro exI [of _ x] exI [of _ "[]"]) simp
next
  case (2 a c x)
  from char_matcher_text [of "\<lambda>d. d = a" c x res] 2 obtain y ch
    where "c y = Some res" "remaining x = ch # remaining y" "ch = a" by auto
  then show ?case by (intro exI [of _ y] exI [of _ "[ch]"]) simp
next
  case (3 c x)
  from char_matcher_text [of "\<lambda>d. \<not> is_line_terminator d" c x res] 3 obtain y ch
    where "c y = Some res" "remaining x = ch # remaining y" "\<not> is_line_terminator ch" by auto
  then show ?case by (intro exI [of _ y] exI [of _ "[ch]"]) simp
next
  case (4 c x)
  from char_matcher_text [of is_space c x res] 4 obtain y ch
    where "c y = Some res" "remaining x = ch # remaining y" "is_space ch" by auto
  then show ?case by (intro exI [of _ y] exI [of _ "[ch]"]) simp
next
  case (5 cs c x)
  from char_matcher_text [of "\<lambda>d. d \<in> set cs" c x res] 5 obtain y ch
    where "c y = Some res" "remaining x = ch # remaining y" "ch \<in> set cs" by auto
  then show ?case by (intro exI [of _ y] exI [of _ "[ch]"]) simp
next
  case (6 r1 r2 c x)
  from "6.IH"(2) [of res] "6.prems"
  obtain y w where y: "matcher r2 c y = Some res" "remaining x = w @ remaining y"
    "\<forall>ch\<in>set w. consumes r1 ch" by auto
  from "6.IH"(1) [OF y(1)]
  obtain z v where z: "c z = Some res" "remaining y = v @ remaining z"
    "\<forall>ch\<in>set v. consumes r2 ch" by auto
  from y z show ?case by (intro exI [of _ z] exI [of _ "w @ v"]) auto
next
  case (7 r c x)
  show ?case
  proof (cases "matcher r (\<lambda>y. if length (remaining y) < length (remaining x)
                             then matcher (Star r) c y else None) x")
    case None
    with "7.prems" show ?thesis by (intro exI [of _ x] exI [of _ "[]"]) simp
  next
    case (Some res')
    with "7.prems" have eq: "res' = res" by simp
    from "7.IH"(2) [of res] Some eq
    obtain y w where y: "length (remaining y) < length (remaining x)"
      "matcher (Star r) c y = Some res" "remaining x = w @ remaining y"
      "\<forall>ch\<in>set w. consumes r ch"
      by (auto split: if_splits)
    from "7.IH"(1) [OF y(1,2)]
    obtain z v where z: "c z = Some res" "remaining y = v @ remaining z"
      "\<forall>ch\<in>set v. consumes (Star r) ch" by auto
    from y z show ?thesis by (intro exI [of _ z] exI [of _ "w @ v"]) auto
  qed
next
  case (8 r c x)
  show ?case
  proof (cases "matcher r (\<lambda>y. if length (remaining y) < length (remaining x) then c y else None) x")
    case None
    with "8.prems" show ?thesis by (intro exI [of _ x] exI [of _ "[]"]) simp
  next
    case (Some res')
    with "8.prems" have eq: "res' = res" by simp
    from "8.IH" [of res] Some eq show ?thesis by (auto split: if_splits)
  qed
next
  case (9 c x)
  then show ?case by (intro exI [of _ x] exI [of _ "[]"]) (simp split: if_splits)
next
  case (10 c x)
  then show ?case by (intro exI [of _ x] exI [of _ "[]"]) (simp split: if_splits)
next
  case (11 r c x)
  from "11.IH" [of res] "11.prems"
  obtain y w where "c (y \<lparr> captures := captures y @ [take (endIndex y - endIndex x) (remaining x)] \<rparr>)
      = Some res" "remaining x = w @ remaining y" "\<forall>ch\<in>set w. consumes r ch" by auto
  then show ?case
    by (intro exI [of _ "y \<lparr> captures := captures y @ [take (endIndex y - endIndex x) (remaining x)] \<rparr>"]
        exI [of _ w]) simp
qed

lemma Seq_Chr_text:
  "matcher (Seq (Chr a) r) c x = Some res \<Longrightarrow>
     \<exists>x'. remaining x = a # remaining x' \<and> matcher r c x' = Some res"
  using char_matcher_text [of "\<lambda>d. d = a" "matcher r c" x res] by auto

lemma literal_text:
  "matcher (cat (map Chr p)) c x = Some res \<Longrightarrow>
     \<exists>x'. remaining x = p @ remaining x' \<and> c x' = Some res"
proof (induction p arbitrary: x)
  case Nil
  then show ?case by auto
next
  case (Cons a p)
  show ?case
  proof (cases p)
    case Nil
    with Cons.prems char_matcher_text [of "\<lambda>d. d = a" c x res] show ?thesis by auto
  next
    case (Cons b q)
    with Cons.prems have "matcher (Seq (Chr a) (cat (map Chr p))) c x = Some res" by simp
    from Seq_Chr_text [OF this] obtain x' where x': "remaining x = a # remaining x'"
      "matcher (cat (map Chr p)) c x' = Some res" by auto
    from Cons.IH [OF x'(2)] x'(1) show ?thesis by auto
  qed
qed

lemma Seq_lit_text:
  "matcher (Seq (lit p) r) c x = Some res \<Longrightarrow>
     \<exists>x'. remaining x = p @ remaining x' \<and> matcher r c x' = Some res"
  using literal_text [of p "matcher r c" x res] by (simp add: lit_def)


lemma consumes_literal: "consumes (cat (map Chr p)) ch \<longleftrightarrow> ch \<in> set p"
proof (induction p)
  case Nil
  show ?case by simp
next
  case (Cons a p)
  then show ?case by (cases p) auto
qed

lemma consumes_lit [simp]: "consumes (lit p) ch \<longleftrightarrow> ch \<in> set p"
  by (simp add: lit_def consumes_literal)

lemma adjacent_Cons:
  "adjacent a b (x # s) = ((s \<noteq> [] \<and> x = a \<and> hd s = b) \<or> adjacent a b s)"
  by (cases s) auto

lemma not_adjacent: "a \<notin> set w \<Longrightarrow> \<not> adjacent a b w"
  by (induction w) (auto simp: adjacent_Cons)

lemma adjacent_inside: "adjacent a b (p @ a # b # u)"
  by (induction p) (auto simp: adjacent_Cons)

lemma exec_from_suffix:
  "exec_from r k s = Some (st, y) \<Longrightarrow> \<exists>p t. s = p @ t \<and> match_at r st t = Some y"
proof (induction s arbitrary: k)
  case Nil
  then show ?case by (auto split: option.splits)
next
  case (Cons c s)
  show ?case
  proof (cases "match_at r k (c # s)")
    case None
    with Cons.prems have "exec_from r (Suc k) s = Some (st, y)" by simp
    from Cons.IH [OF this] obtain p t where "s = p @ t" "match_at r st t = Some y" by auto
    then show ?thesis by (intro exI [of _ "c # p"] exI [of _ t]) simp
  next
    case (Some y')
    with Cons.prems have "st = k" "y' = y" by simp_all
    with Some show ?thesis by (intro exI [of _ "[]"] exI [of _ "c # s"]) simp
  qed
qed

text \<open>
  A match of the transform's pattern starts with two backslashes, \<open>mathbb\<close> and a
  backslash: a \<open>b\<close> is followed by a backslash.  A match of the predicate's pattern is
  \<^verbatim>\<open>\\mathbb{E}[R_{t+1}\\mid\<close> followed by a text without \<open>b\<close>.  So the transform's
  pattern matches nowhere inside a match of the predicate's pattern.
\<close>

lemma replace_pattern_text:
  assumes "match_at re_expected_reward_replace j t = Some y"
  shows "\<exists>u. t = [BS, BS] @ ''mathb'' @ CHR ''b'' # BS # u"
proof -
  obtain R where R: "re_expected_reward_replace =
      Seq (Chr BS) (Seq (Chr BS) (Seq (lit ''mathbb'') (Seq (Chr BS) R)))"
    by (simp add: re_expected_reward_replace_def expectation_prefix_def)
  from assms [unfolded match_at_def R, THEN Seq_Chr_text]
  obtain x1 where 1: "t = BS # remaining x1"
    "matcher (Seq (Chr BS) (Seq (lit ''mathbb'') (Seq (Chr BS) R))) Some x1 = Some y"
    by auto
  from Seq_Chr_text [OF 1(2)] obtain x2 where 2: "remaining x1 = BS # remaining x2"
    "matcher (Seq (lit ''mathbb'') (Seq (Chr BS) R)) Some x2 = Some y"
    by blast
  from Seq_lit_text [OF 2(2)] obtain x3 where 3: "remaining x2 = ''mathbb'' @ remaining x3"
    "matcher (Seq (Chr BS) R) Some x3 = Some y"
    by blast
  from Seq_Chr_text [OF 3(2)] obtain x4 where 4: "remaining x3 = BS # remaining x4"
    "matcher R Some x4 = Some y"
    by blast
  from 1(1) 2(1) 3(1) 4(1) show ?thesis by simp
qed

lemma predicate_pattern_text:
  assumes "match_at re_expected_reward k s = Some y"
  shows "\<exists>w. s = ([BS, BS] @ ''mathbb{E}[R_{t+1}'' @ [BS, BS] @ ''mid'') @ w @ remaining y
    \<and> CHR ''b'' \<notin> set w"
proof -
  define T where "T = cat [Star Space, lit ''S_t'', Star Space, lit ''='', Star Space, lit ''s]'']"
  have R: "re_expected_reward =
      Seq (Chr BS) (Seq (Chr BS) (Seq (lit ''mathbb{E}[R_{t+1}'') (Seq (Chr BS) (Seq (Chr BS)
        (Seq (lit ''mid'') T)))))"
    by (simp add: re_expected_reward_def T_def)
  from assms [unfolded match_at_def R, THEN Seq_Chr_text]
  obtain x1 where 1: "s = BS # remaining x1"
    "matcher (Seq (Chr BS) (Seq (lit ''mathbb{E}[R_{t+1}'') (Seq (Chr BS) (Seq (Chr BS)
        (Seq (lit ''mid'') T))))) Some x1 = Some y"
    by auto
  from Seq_Chr_text [OF 1(2)] obtain x2 where 2: "remaining x1 = BS # remaining x2"
    "matcher (Seq (lit ''mathbb{E}[R_{t+1}'') (Seq (Chr BS) (Seq (Chr BS)
        (Seq (lit ''mid'') T)))) Some x2 = Some y"
    by blast
  from Seq_lit_text [OF 2(2)] obtain x3 where 3:
    "remaining x2 = ''mathbb{E}[R_{t+1}'' @ remaining x3"
    "matcher (Seq (Chr BS) (Seq (Chr BS) (Seq (lit ''mid'') T))) Some x3 = Some y"
    by blast
  from Seq_Chr_text [OF 3(2)] obtain x4 where 4: "remaining x3 = BS # remaining x4"
    "matcher (Seq (Chr BS) (Seq (lit ''mid'') T)) Some x4 = Some y"
    by blast
  from Seq_Chr_text [OF 4(2)] obtain x5 where 5: "remaining x4 = BS # remaining x5"
    "matcher (Seq (lit ''mid'') T) Some x5 = Some y"
    by blast
  from Seq_lit_text [OF 5(2)] obtain x6 where 6: "remaining x5 = ''mid'' @ remaining x6"
    "matcher T Some x6 = Some y"
    by blast
  from matcher_text [OF 6(2)] obtain w where w: "remaining x6 = w @ remaining y"
    "\<forall>ch\<in>set w. consumes T ch" by auto
  have "ch \<noteq> CHR ''b''" if "consumes T ch" for ch
    using that by (auto simp: T_def is_space_def)
  with w(2) have "CHR ''b'' \<notin> set w" by auto
  with 1(1) 2(1) 3(1) 4(1) 5(1) 6(1) w(1) show ?thesis by simp
qed


lemma patterns_disjoint:
  assumes "match_at re_expected_reward k s = Some y"
  shows "exec_from re_expected_reward_replace j (take (endIndex y - k) s) = None"
proof (rule ccontr)
  assume "exec_from re_expected_reward_replace j (take (endIndex y - k) s) \<noteq> None"
  then obtain st z where e: "exec_from re_expected_reward_replace j (take (endIndex y - k) s)
      = Some (st, z)" by auto
  define pre where "pre = [BS, BS] @ ''mathbb{E}[R_{t+1}'' @ [BS, BS] @ ''mid''"
  from predicate_pattern_text [OF assms] obtain w where w: "s = pre @ w @ remaining y"
    "CHR ''b'' \<notin> set w" unfolding pre_def by blast
  from assms have "endIndex y + length (remaining y) = k + length s"
    by (auto simp: match_at_def dest!: matcher_forward)
  with w(1) have l: "endIndex y - k = length (pre @ w)" by simp
  have "take (length (pre @ w)) ((pre @ w) @ remaining y) = pre @ w"
    by (rule append_eq_conv_conj [THEN iffD1, THEN conjunct1, symmetric]) (rule refl)
  with w(1) l have t: "take (endIndex y - k) s = pre @ w" by simp
  from exec_from_suffix [OF e] obtain p u where pu: "take (endIndex y - k) s = p @ u"
    "match_at re_expected_reward_replace st u = Some z" by blast
  from replace_pattern_text [OF pu(2)] obtain v
    where "u = [BS, BS] @ ''mathb'' @ CHR ''b'' # BS # v" by blast
  with pu(1) t have "pre @ w = (p @ [BS, BS] @ ''mathb'') @ CHR ''b'' # BS # v"
    by simp
  moreover have "adjacent CHR ''b'' BS ((p @ [BS, BS] @ ''mathb'') @ CHR ''b'' # BS # v)"
    by (rule adjacent_inside)
  moreover have "\<not> adjacent CHR ''b'' BS (pre @ w)"
    unfolding pre_def using not_adjacent [OF w(2), of BS] by (simp add: adjacent_Cons)
  ultimately show False by simp
qed

text \<open>
  Claim C10.  The expression \<^verbatim>\<open>\\mathbb{E}[R_{t+1}\\mid S_t=s]\<close> (two backslashes each)
  is accepted by the predicate of \<open>define-r\<close>; the pattern of the transform matches
  nowhere in it, so nothing is replaced; the expression is its own normal form; and the
  transform returns it unchanged, without raising.  The reason is general: in whatever
  text \<open>s\<close> and at whatever index \<open>k\<close> the predicate's pattern matches, the pattern of
  the transform matches nowhere in the matched part of \<open>s\<close>.
\<close>

theorem define_r_silent_noop:
  "appliesTo define_r doubled_expected_reward = Inr True
   \<and> exec_from re_expected_reward_replace 0 doubled_expected_reward = None
   \<and> replace_global doubled_expected_reward re_expected_reward_replace ''r(s)''
       = doubled_expected_reward
   \<and> normalize_str doubled_expected_reward = doubled_expected_reward
   \<and> transform define_r doubled_expected_reward = Inr doubled_expected_reward
   \<and> (match_at re_expected_reward k s = Some y
        \<longrightarrow> exec_from re_expected_reward_replace j (take (endIndex y - k) s) = None)"
proof (intro conjI impI)
  assume "match_at re_expected_reward k s = Some y"
  then show "exec_from re_expected_reward_replace j (take (endIndex y - k) s) = None"
    by (rule patterns_disjoint)
qed code_simp+

theorem define_r_silent_noop_witness:
  "match_at re_expected_reward 0 doubled_expected_reward
     = Some \<lparr> endIndex = 31, remaining = [], captures = [] \<rparr>
   \<and> exec_from re_expected_reward_replace 0 (take 31 doubled_expected_reward) = None"
proof -
  have m: "match_at re_expected_reward 0 doubled_expected_reward
     = Some \<lparr> endIndex = 31, remaining = [], captures = [] \<rparr>"
    by code_simp
  from define_r_silent_noop
    [of 0 doubled_expected_reward "\<lparr> endIndex = 31, remaining = [], captures = [] \<rparr>" 0] m
  show ?thesis by simp
qed

subsection \<open>White-space normalization of the results\<close>

text \<open>
  On the pattern \<^verbatim>\<open>\s+\<close> the global replacement by one space is the function
  \<open>collapse\<close>.
\<close>

lemma star_space_Some:
  "matcher (Star Space) Some x =
     Some (x \<lparr> endIndex := endIndex x + length (takeWhile is_space (remaining x)),
               remaining := dropWhile is_space (remaining x) \<rparr>)"
proof (induction "remaining x" arbitrary: x)
  case Nil
  then show ?case by (simp add: char_matcher_def)
next
  case (Cons c cs)
  show ?case
  proof (cases "is_space c")
    case False
    with Cons(2) [symmetric] show ?thesis by (simp add: char_matcher_def)
  next
    case True
    have r: "cs = remaining (advance_char x)"
      using Cons(2) [symmetric] by (simp add: advance_char_def)
    from Cons(1) [OF r] Cons(2) [symmetric] True show ?thesis
      by (simp add: char_matcher_def advance_char_def)
  qed
qed


lemma match_at_spaces:
  "match_at (Plus Space) k s =
     (case s of
        [] \<Rightarrow> None
      | c # cs \<Rightarrow>
          if is_space c
          then Some \<lparr> endIndex = k + 1 + length (takeWhile is_space cs),
                      remaining = dropWhile is_space cs, captures = [] \<rparr>
          else None)"
  by (cases s) (simp_all add: match_at_def Plus_def char_matcher_def advance_char_def
      star_space_Some del: matcher.simps(7))

lemma replace_all_skip:
  assumes "match_at r k (c # cs) = None"
  shows "replace_all r rep k (c # cs) = c # replace_all r rep (Suc k) cs"
proof (cases "exec_from r (Suc k) cs")
  case None
  with assms show ?thesis
    by (subst replace_all.simps, subst (2) replace_all.simps) simp
next
  case (Some p)
  obtain st y where p: "p = (st, y)" by (cases p)
  from exec_from_forward [OF Some [unfolded p]] have "Suc k \<le> st" by simp
  then have t: "take (st - k) (c # cs) = c # take (st - Suc k) cs"
    by (simp add: take_Cons' Suc_diff_le)
  from assms Some p t show ?thesis
    by (subst replace_all.simps, subst (2) replace_all.simps) simp
qed

lemma replace_all_hit:
  assumes "match_at r k s = Some y" "endIndex y \<noteq> k"
  shows "replace_all r rep k s = rep @ replace_all r rep (endIndex y) (remaining y)"
  using assms by (subst replace_all.simps) (cases s; simp)

lemma replace_spaces_collapse:
  "replace_all (Plus Space) '' '' k s = collapse s"
proof (induction s arbitrary: k rule: collapse.induct)
  case 1
  show ?case by (subst replace_all.simps) (simp add: match_at_spaces)
next
  case (2 c cs)
  show ?case
  proof (cases "is_space c")
    case True
    then have m: "match_at (Plus Space) k (c # cs) =
        Some \<lparr> endIndex = k + 1 + length (takeWhile is_space cs),
               remaining = dropWhile is_space cs, captures = [] \<rparr>"
      by (simp add: match_at_spaces)
    from replace_all_hit [OF m, of "'' ''"] 2(1) [OF True] True show ?thesis by simp
  next
    case False
    then have m: "match_at (Plus Space) k (c # cs) = None" by (simp add: match_at_spaces)
    from replace_all_skip [OF m, of "'' ''"] 2(2) [OF False] False show ?thesis by simp
  qed
qed

lemma collapse_head:
  "s \<noteq> [] \<Longrightarrow> \<not> is_space (hd s) \<Longrightarrow> collapse s \<noteq> [] \<and> hd (collapse s) = hd s"
  by (cases s) simp_all

lemma collapsed_Cons:
  "collapsed (c # t) \<longleftrightarrow>
     (is_space c \<longrightarrow> c = CHR '' '' \<and> (t \<noteq> [] \<longrightarrow> \<not> is_space (hd t))) \<and> collapsed t"
  by (cases t) auto

lemma collapsed_collapse: "collapsed (collapse s)"
proof (induction s rule: collapse.induct)
  case 1
  show ?case by simp
next
  case (2 c cs)
  show ?case
  proof (cases "is_space c")
    case True
    let ?d = "dropWhile is_space cs"
    have "collapse ?d \<noteq> [] \<longrightarrow> \<not> is_space (hd (collapse ?d))"
    proof (cases "?d = []")
      case True
      then have "collapse ?d = []" by (simp only: collapse.simps)
      then show ?thesis by (simp only: simp_thms)
    next
      case False
      then have "\<not> is_space (hd ?d)" by (rule hd_dropWhile)
      with False collapse_head [of ?d] show ?thesis by simp
    qed
    with True 2(1) show ?thesis by (simp add: collapsed_Cons)
  next
    case False
    with 2(2) show ?thesis by (simp add: collapsed_Cons)
  qed
qed

lemma collapse_collapsed: "collapsed s \<Longrightarrow> collapse s = s"
proof (induction s rule: collapse.induct)
  case 1
  show ?case by simp
next
  case (2 c cs)
  show ?case
  proof (cases "is_space c")
    case True
    with 2(3) have c: "c = CHR '' ''" "cs \<noteq> [] \<longrightarrow> \<not> is_space (hd cs)" "collapsed cs"
      by (simp_all add: collapsed_Cons)
    then have d: "dropWhile is_space cs = cs" by (cases cs) simp_all
    with 2(1) [OF True] c True show ?thesis by simp
  next
    case False
    with 2(2) [OF False] 2(3) show ?thesis by (simp add: collapsed_Cons)
  qed
qed

lemma collapsed_append: "collapsed (xs @ ys) \<Longrightarrow> collapsed xs \<and> collapsed ys"
proof (induction xs)
  case Nil
  then show ?case by simp
next
  case (Cons c xs)
  then show ?case
    by (cases xs) (auto simp: collapsed_Cons)
qed

lemma trim_decompose: "\<exists>pre post. s = pre @ trim s @ post"
proof -
  have 1: "s = takeWhile is_space s @ dropWhile is_space s" by simp
  let ?u = "dropWhile is_space s"
  have "rev ?u = takeWhile is_space (rev ?u) @ dropWhile is_space (rev ?u)" by simp
  then have "?u = rev (dropWhile is_space (rev ?u)) @ rev (takeWhile is_space (rev ?u))"
    by (metis rev_append rev_rev_ident)
  then have 2: "?u = trim s @ rev (takeWhile is_space (rev ?u))" by (simp add: trim_def)
  from 1 2 have "s = takeWhile is_space s @ trim s @ rev (takeWhile is_space (rev ?u))"
    by metis
  then show ?thesis by blast
qed

lemma collapsed_trim: "collapsed s \<Longrightarrow> collapsed (trim s)"
proof -
  assume c: "collapsed s"
  obtain pre post where "s = pre @ trim s @ post" using trim_decompose by blast
  with c have "collapsed (pre @ trim s @ post)" by simp
  then show ?thesis using collapsed_append by blast
qed

lemma trim_trim: "trim (trim s) = trim s"
proof -
  let ?u = "dropWhile is_space s"
  let ?w = "rev (dropWhile is_space (rev ?u))"
  have w: "trim s = ?w" by (simp add: trim_def)
  have a: "dropWhile is_space ?w = ?w"
  proof (cases "?w = []")
    case True
    then show ?thesis by (simp only: dropWhile.simps)
  next
    case False
    have "?u = ?w @ rev (takeWhile is_space (rev ?u))"
      by (metis rev_append rev_rev_ident takeWhile_dropWhile_id)
    with False have "hd ?w = hd ?u" "?u \<noteq> []" by (metis hd_append2, metis append_is_Nil_conv)
    moreover from \<open>?u \<noteq> []\<close> have "\<not> is_space (hd ?u)" by (rule hd_dropWhile)
    ultimately have "\<not> is_space (hd ?w)" by simp
    with False show ?thesis by (cases ?w) simp_all
  qed
  have b: "dropWhile is_space (rev ?w) = rev ?w"
    by (simp add: dropWhile_idem)
  show ?thesis
    unfolding w trim_def [of ?w] a b by simp
qed

text \<open>Normalizing twice is normalizing once.\<close>

lemma normalize_collapse: "normalize_str s = trim (collapse s)"
  by (simp add: normalize_str_def replace_global_def replace_spaces_collapse)

lemma normalize_idem: "normalize_str (normalize_str s) = normalize_str s"
proof -
  have "collapsed (trim (collapse s))" by (intro collapsed_trim collapsed_collapse)
  then have "collapse (trim (collapse s)) = trim (collapse s)" by (rule collapse_collapsed)
  then show ?thesis by (simp add: normalize_collapse trim_trim)
qed


text \<open>
  Every transform of the catalog but that of \<open>linearity\<close> returns a text in normal form:
  six of them return \<open>normalize_str\<close> of something, and \<open>assemble-bellman\<close> returns a
  constant that is in normal form.
\<close>

lemma assemble_result_normal: "normalize_str bellman_equation = bellman_equation"
  by code_simp

lemma normalized_except_linearity:
  assumes "r \<in> set mrpBellmanRules" and "id_rule r \<noteq> ''linearity''"
    and "transform r e = Inr out"
  shows "normalize_str out = out"
proof -
  from assms(1) consider "r = def_value" | "r = def_return" | "r = unroll_return"
    | "r = linearity" | "r = define_r" | "r = total_expectation_next_state"
    | "r = value_substitution" | "r = assemble_bellman"
    by (auto simp: mrpBellmanRules_def)
  then show ?thesis
  proof cases
    case 1
    with assms(3) show ?thesis by (auto simp: def_value_def normalize_idem)
  next
    case 2
    with assms(3) show ?thesis by (auto simp: def_return_def normalize_idem)
  next
    case 3
    with assms(3) show ?thesis
      by (auto simp: unroll_return_def normalize_idem split: if_splits)
  next
    case 4
    with assms(2) show ?thesis by (simp add: linearity_def)
  next
    case 5
    with assms(3) show ?thesis by (auto simp: define_r_def normalize_idem)
  next
    case 6
    with assms(3) show ?thesis
      by (auto simp: total_expectation_next_state_def normalize_idem
          split: option.splits list.splits)
  next
    case 7
    with assms(3) show ?thesis by (auto simp: value_substitution_def normalize_idem)
  next
    case 8
    with assms(3) show ?thesis
      by (auto simp: assemble_bellman_def assemble_result_normal split: if_splits)
  qed
qed



text \<open>
  Claim C5 fails for the rule \<open>linearity\<close>, the one transform of the catalog that builds
  its result without calling \<open>normalize_str\<close>: on an accepted expression with two spaces in
  the condition the transform succeeds and the result keeps the two spaces, so it is
  not a fixed point of \<open>normalize_str\<close>.
\<close>

theorem linearity_not_normalized:
  "find (\<lambda>r. id_rule r = ''linearity'') mrpBellmanRules = Some linearity
   \<and> appliesTo linearity spaced_expectation = Inr True
   \<and> transform linearity spaced_expectation = Inr spaced_result
   \<and> normalize_str spaced_result \<noteq> spaced_result"
proof (intro conjI)
  show "find (\<lambda>r. id_rule r = ''linearity'') mrpBellmanRules = Some linearity"
    by (simp add: mrpBellmanRules_def def_value_def def_return_def unroll_return_def
        linearity_def)
qed code_simp+

section \<open>Properties of the derivation history\<close>

text \<open>
  Claim C4, as stated, fails on the length: from a history of five steps with the cursor
  at index 2, the new history has four steps, not three.
\<close>

theorem advance_counterexample:
  "length (steps \<lparr> steps = [START, START, START, START, START], activeIndex = 2 \<rparr>) = 5
   \<and> length (steps (advance \<lparr> steps = [START, START, START, START, START], activeIndex = 2 \<rparr>
                        START)) \<noteq> 3"
  by (simp add: advance_def)

lemma onApplyRule_cases:
  "onApplyRule h rid = h \<or> (\<exists>next. onApplyRule h rid = advance h next)"
  by (auto simp: onApplyRule_def Let_def split: option.splits sum.splits)

lemma mrpBellmanRules_ids:
  "map id_rule mrpBellmanRules =
     [''def-value'', ''def-return'', ''unroll-return'', ''linearity'', ''define-r'',
      ''total-expectation-next-state'', ''value-substitution'', ''assemble-bellman'']"
  by (simp add: mrpBellmanRules_def def_value_def def_return_def unroll_return_def
      linearity_def define_r_def total_expectation_next_state_def value_substitution_def
      assemble_bellman_def)

lemma onApplyRule_advances:
  assumes "rid \<in> set (map id_rule mrpBellmanRules)"
  shows "\<exists>next. onApplyRule h rid = advance h next"
proof -
  from assms obtain rule where "find (\<lambda>r. id_rule r = rid) mrpBellmanRules = Some rule"
    by (cases "find (\<lambda>r. id_rule r = rid) mrpBellmanRules") (auto simp: find_None_iff)
  then show ?thesis
    by (auto simp: onApplyRule_def Let_def split: sum.splits)
qed

text \<open>
  Claim C4, amended.  From a history of five steps with the cursor at index 2,
  \<open>advance\<close> yields the first three steps (indices 0 to 2) followed by the new step, four
  steps in all: the old steps 3 and 4 are gone, and the cursor is 3, the index of the
  new and last step.  A manual edit does so, and so does applying any rule of the
  catalog, whether the rule succeeds or fails.
\<close>

theorem advance_truncates:
  assumes "length (steps h) = 5" and "activeIndex h = 2"
  shows "steps (advance h next) = take 3 (steps h) @ [next]
    \<and> length (steps (advance h next)) = 4
    \<and> activeIndex (advance h next) = 3
    \<and> activeIndex (advance h next) = length (steps (advance h next)) - 1
    \<and> steps (advance h next) ! activeIndex (advance h next) = next
    \<and> length (steps (setActiveLatex h ltx)) = 4 \<and> activeIndex (setActiveLatex h ltx) = 3
    \<and> (rid \<in> set (map id_rule mrpBellmanRules) \<longrightarrow>
         length (steps (onApplyRule h rid)) = 4 \<and> activeIndex (onApplyRule h rid) = 3
         \<and> take 3 (steps (onApplyRule h rid)) = take 3 (steps h))"
proof -
  have a: "steps (advance h s) = take 3 (steps h) @ [s]" "activeIndex (advance h s) = 3" for s
    using assms by (simp_all add: advance_def)
  have l: "length (steps (advance h s)) = 4" for s
    using assms by (simp add: a)
  have n: "steps (advance h s) ! 3 = s" for s
    using assms by (simp add: a nth_append)
  have t: "take 3 (steps (advance h s)) = take 3 (steps h)" for s
    using assms by (simp add: a)
  have r: "length (steps (onApplyRule h rid)) = 4 \<and> activeIndex (onApplyRule h rid) = 3
         \<and> take 3 (steps (onApplyRule h rid)) = take 3 (steps h)"
    if "rid \<in> set (map id_rule mrpBellmanRules)"
    using onApplyRule_advances [OF that, of h] a(2) l t by auto
  show ?thesis
    using a l n r by (simp add: setActiveLatex_def)
qed

theorem advance_truncates_witness:
  "steps (advance \<lparr> steps = [START, START, START, START, START], activeIndex = 2 \<rparr>
            (START \<lparr> latex := ''x'' \<rparr>))
     = [START, START, START, START \<lparr> latex := ''x'' \<rparr>]
   \<and> activeIndex (advance \<lparr> steps = [START, START, START, START, START], activeIndex = 2 \<rparr>
            (START \<lparr> latex := ''x'' \<rparr>)) = 3
   \<and> length (steps (onApplyRule \<lparr> steps = [START, START, START, START, START], activeIndex = 2 \<rparr>
            ''def-value'')) = 4"
proof -
  let ?h = "\<lparr> steps = [START, START, START, START, START], activeIndex = 2 \<rparr>"
  have a: "length (steps ?h) = 5" "activeIndex ?h = 2" by simp_all
  have m: "''def-value'' \<in> set (map id_rule mrpBellmanRules)"
    by (simp add: mrpBellmanRules_ids)
  from advance_truncates [OF a, of "START \<lparr> latex := ''x'' \<rparr>" "''''" "''def-value''"] m
  show ?thesis by (simp add: numeral_3_eq_3)
qed

end
